theory Spec2Isabelle
  imports Main "HOL-Library.Word"
begin

unbundle bit_operations_syntax

section \<open>Failure values\<close>

text \<open>
  The pass has no error channel of its own, but it does stop in three ways that are not a
  normal return: an \<open>assert\<close> that fails, an \<open>llvm_unreachable\<close> that is executed, and
  an index past the end of an \<open>ArrayRef\<close>. Each of them is a value here.
\<close>

datatype abort = AssertionFailure | UnreachableExecuted | IndexOutOfRange

section \<open>The host IR, as far as the pass reads it\<close>

text \<open>
  Modelled from the spec: the SIL data structures (values, nodes, instructions, apply
  sites, terminators, basic blocks, functions, the module) are declared in headers that
  are not among the source files. The types below follow the data model of the
  specification (a function is an ordered list of blocks with an entry block and
  positional arguments; a block is a sequence of instructions ending in one terminator,
  with successor and predecessor edges counted with their multiplicity; an instruction
  has operands and memory effects; a call site carries its arguments) and hold what the
  pass reads of them. Pointers are identities: a function, a declaration and a
  conformance are each named by a number, a basic block by its position in the function's
  block list, an instruction by its \<open>instId\<close>.
\<close>

type_synonym SILFunctionId = nat
type_synonym ClassDecl = nat
type_synonym SILDeclRef = nat
type_synonym ProtocolConformanceRef = nat

datatype SILValue =
    InstructionResult nat nat
  | FunctionArgument nat
  | OtherValue nat

datatype SILNode =
    InstructionNode nat
  | FunctionArgumentNode nat
  | OtherNode nat

text \<open>
  Modelled from the spec: \<open>getRepresentativeSILNodeInObject\<close> is declared outside the
  source files. Every result of an instruction is represented by the instruction itself
  (the walk recurses into "every operand" of "the instruction that produces the value"),
  every other value by its own node.
\<close>

fun getRepresentativeSILNodeInObject :: "SILValue \<Rightarrow> SILNode" where
  "getRepresentativeSILNodeInObject (InstructionResult i k) = InstructionNode i"
| "getRepresentativeSILNodeInObject (FunctionArgument n) = FunctionArgumentNode n"
| "getRepresentativeSILNodeInObject (OtherValue n) = OtherNode n"

text \<open>
  The callee of a full apply site. \<open>FunctionRef g\<close> is a callee for which
  \<open>getReferencedFunctionOrNull\<close> answers \<open>g\<close>; for every other constructor it answers null.
  A \<open>class_method\<close> carries the class declaration of its operand's type (which may be
  null) and its member, a \<open>witness_method\<close> its conformance and its member.
\<close>

datatype Callee =
    FunctionRef SILFunctionId
  | SuperMethodInst
  | ObjCSuperMethodInst
  | ObjCMethodInst
  | ClassMethodInst "ClassDecl option" SILDeclRef
  | WitnessMethodInst ProtocolConformanceRef SILDeclRef
  | OtherCallee

record FullApplySite =
  getCallee :: Callee
  getArguments :: "SILValue list"
  isCalleeKnownProgramTerminationPoint :: bool

datatype SILInstructionKind = LoadInst | BeginAccessInst | EndAccessInst | OtherInstructionKind

text \<open>
  An instruction: its identity, its kind as far as \<open>mayWriteToMemory\<close> tells kinds apart,
  the answers of the generic effect queries, its operands, and
  \<open>FullApplySite::isa\<close> of it.
\<close>

record SILInstruction =
  instId :: nat
  getKind :: SILInstructionKind
  instMayWriteToMemory :: bool
  mayReadFromMemory :: bool
  getAllOperands :: "SILValue list"
  asFullApplySite :: "FullApplySite option"

datatype TermKind =
    SwitchEnumAddrInst
  | CheckedCastAddrBranchInst
  | CondBranchInst
  | SwitchValueInst
  | SwitchEnumInst
  | CheckedCastBranchInst
  | CheckedCastValueBranchInst
  | OtherTermKind

text \<open>
  A terminator is the last instruction of its block (a \<open>try_apply\<close> is a terminator and
  a full apply site), with what only terminators have.
\<close>

record TermInst =
  asInstruction :: SILInstruction
  getTermKind :: TermKind
  isFunctionExiting :: bool
  isProgramTerminating :: bool

text \<open>
  A block: the instructions before the terminator, the terminator, and the two edge lists
  of the control-flow graph, each with one entry per edge.
\<close>

record SILBasicBlock =
  bodyInstructions :: "SILInstruction list"
  getTerminator :: TermInst
  getSuccessorBlocks :: "nat list"
  getPredecessorBlocks :: "nat list"

record SILFunction =
  functionId :: SILFunctionId
  numArguments :: nat
  getBlocks :: "SILBasicBlock list"
  wasDeserializedCanonical :: bool

text \<open>
  What the pass asks of the module and of the utilities it includes, none of them among
  the source files and all of them taken as parameters: whether a class declaration
  belongs to the module being compiled, \<open>calleesAreStaticallyKnowable\<close>, \<open>isOverridden\<close>
  of a member's declaration, \<open>getTargetClassMethod\<close>, \<open>lookUpFunctionInWitnessTable\<close>
  (its first component) and \<open>stripAccessMarkers\<close>.
\<close>

record SILModule =
  isInSwiftModule :: "ClassDecl \<Rightarrow> bool"
  calleesAreStaticallyKnowable :: "SILDeclRef \<Rightarrow> bool"
  isOverridden :: "SILDeclRef \<Rightarrow> bool"
  getTargetClassMethod :: "ClassDecl option \<Rightarrow> SILDeclRef \<Rightarrow> SILFunctionId option"
  lookUpFunctionInWitnessTable :: "ProtocolConformanceRef \<Rightarrow> SILDeclRef \<Rightarrow> SILFunctionId option"
  stripAccessMarkers :: "SILValue \<Rightarrow> SILValue"

text \<open>
  Modelled from the spec: the iteration over a block and over a function is declared
  outside the source files. A block is "an ordered sequence of instructions ending in
  exactly one terminator": iterating over it visits its instructions in order, the
  terminator last; a function is the sequence of its blocks.
\<close>

definition blockInstructions :: "SILBasicBlock \<Rightarrow> SILInstruction list" where
  "blockInstructions block = bodyInstructions block @ [asInstruction (getTerminator block)]"

definition functionInstructions :: "SILFunction \<Rightarrow> SILInstruction list" where
  "functionInstructions function = concat (map blockInstructions (getBlocks function))"

text \<open>
  Modelled from the spec: \<open>function->getArguments()\<close> is declared outside the source
  files. A function "exposes its own positional arguments (index-addressable, index 0 is
  first)": the incoming argument at a position is the function argument with that index;
  a position the function does not have is past the end of the array.
\<close>

definition incomingArg :: "SILFunction \<Rightarrow> nat \<Rightarrow> abort + SILValue" where
  "incomingArg function argIdx =
     (if argIdx < numArguments function then Inr (FunctionArgument argIdx)
      else Inl IndexOutOfRange)"

section \<open>The call classifier\<close>

definition isRecursiveCall :: "SILModule \<Rightarrow> SILFunction \<Rightarrow> FullApplySite \<Rightarrow> bool" where
  "isRecursiveCall module parentFunc applySite =
     (case getCallee applySite of
        FunctionRef calledFn \<Rightarrow> calledFn = functionId parentFunc
      | SuperMethodInst \<Rightarrow> False
      | ObjCSuperMethodInst \<Rightarrow> False
      | ObjCMethodInst \<Rightarrow> False
      | ClassMethodInst classDecl member \<Rightarrow>
          if (case classDecl of Some d \<Rightarrow> \<not> isInSwiftModule module d | None \<Rightarrow> False)
          then False
          else if \<not> calleesAreStaticallyKnowable module member then False
          else if isOverridden module member then False
          else getTargetClassMethod module classDecl member = Some (functionId parentFunc)
      | WitnessMethodInst conformance member \<Rightarrow>
          lookUpFunctionInWitnessTable module conformance member = Some (functionId parentFunc)
      | OtherCallee \<Rightarrow> False)"

section \<open>The memory-effect filter\<close>

definition mayWriteToMemory :: "SILInstruction \<Rightarrow> bool" where
  "mayWriteToMemory inst =
     (case getKind inst of
        LoadInst \<Rightarrow> False
      | BeginAccessInst \<Rightarrow> False
      | EndAccessInst \<Rightarrow> False
      | OtherInstructionKind \<Rightarrow> instMayWriteToMemory inst)"

section \<open>Invariants\<close>

text \<open>
  The class \<open>Invariants\<close> wraps an \<open>unsigned\<close> bit mask. Argument indices are \<open>unsigned\<close>
  in the source and natural numbers here: every shift is guarded by
  \<open>argIdx \<le> maxArgIndex\<close>, so no index arithmetic can wrap.
\<close>

datatype Invariants = Invariants (bitMask: "32 word")

definition invariantMemoryBit :: nat where
  "invariantMemoryBit = 0"

definition firstArgBit :: nat where
  "firstArgBit = 1"

definition maxArgIndex :: nat where
  "maxArgIndex = 16"

definition isBitSet :: "Invariants \<Rightarrow> nat \<Rightarrow> bool" where
  "isBitSet invariants bitNr = (bitMask invariants AND push_bit bitNr 1 \<noteq> 0)"

definition noInvariants :: Invariants where
  "noInvariants = Invariants 0"

definition withInvariantMemory :: "Invariants \<Rightarrow> Invariants" where
  "withInvariantMemory invariants =
     Invariants (bitMask invariants OR push_bit invariantMemoryBit 1)"

definition isMemoryInvariant :: "Invariants \<Rightarrow> bool" where
  "isMemoryInvariant invariants = isBitSet invariants invariantMemoryBit"

definition isArgumentInvariant :: "Invariants \<Rightarrow> nat \<Rightarrow> bool" where
  "isArgumentInvariant invariants argIdx =
     (argIdx \<le> maxArgIndex \<and> isBitSet invariants (argIdx + firstArgBit))"

text \<open>
  The loop of \<open>fromForwardingArguments\<close> over the enumerated arguments of the call, with
  the mask built so far. The incoming argument is read only when the index passed the
  guard, as \<open>&&\<close> does.
\<close>

fun forwardingBits ::
  "SILModule \<Rightarrow> SILFunction \<Rightarrow> (nat \<times> SILValue) list \<Rightarrow> 32 word \<Rightarrow> abort + 32 word"
where
  "forwardingBits module function [] bits = Inr bits"
| "forwardingBits module function ((argIdx, arg) # rest) bits =
     (if argIdx \<le> maxArgIndex then
        (case incomingArg function argIdx of
           Inl e \<Rightarrow> Inl e
         | Inr incoming \<Rightarrow>
             if stripAccessMarkers module arg = incoming
             then forwardingBits module function rest (bits OR push_bit (argIdx + firstArgBit) 1)
             else forwardingBits module function rest bits)
      else forwardingBits module function rest bits)"

definition fromForwardingArguments ::
  "SILModule \<Rightarrow> SILFunction \<Rightarrow> FullApplySite \<Rightarrow> abort + Invariants"
where
  "fromForwardingArguments module function recursiveApply =
     (case forwardingBits module function (enumerate 0 (getArguments recursiveApply)) 0 of
        Inl e \<Rightarrow> Inl e
      | Inr bits \<Rightarrow> Inr (Invariants bits))"

text \<open>The loop of \<open>hasInvariantArguments\<close>.\<close>

fun forwardsInvariantArguments ::
  "SILModule \<Rightarrow> SILFunction \<Rightarrow> Invariants \<Rightarrow> (nat \<times> SILValue) list \<Rightarrow> abort + bool"
where
  "forwardsInvariantArguments module function invariants [] = Inr True"
| "forwardsInvariantArguments module function invariants ((argIdx, arg) # rest) =
     (if isArgumentInvariant invariants argIdx then
        (case incomingArg function argIdx of
           Inl e \<Rightarrow> Inl e
         | Inr incoming \<Rightarrow>
             if stripAccessMarkers module arg \<noteq> incoming then Inr False
             else forwardsInvariantArguments module function invariants rest)
      else forwardsInvariantArguments module function invariants rest)"

definition hasInvariantArguments ::
  "SILModule \<Rightarrow> SILFunction \<Rightarrow> Invariants \<Rightarrow> FullApplySite \<Rightarrow> abort + bool"
where
  "hasInvariantArguments module function invariants recursiveApply =
     forwardsInvariantArguments module function invariants
       (enumerate 0 (getArguments recursiveApply))"

section \<open>The use-def walk\<close>

text \<open>
  Modelled from the spec: the class hierarchy behind \<open>dyn_cast<SILInstruction>(node)\<close> is
  declared outside the source files. The defining instruction of a node is looked up among
  the instructions of the function; a node that names no instruction of the function is
  no instruction.
\<close>

definition findInstruction :: "SILInstruction list \<Rightarrow> SILNode \<Rightarrow> SILInstruction option" where
  "findInstruction insts node =
     (case node of
        InstructionNode i \<Rightarrow> find (\<lambda>inst. instId inst = i) insts
      | FunctionArgumentNode n \<Rightarrow> None
      | OtherNode n \<Rightarrow> None)"

text \<open>
  \<open>isInvariantValue\<close> with its loop over the operands. The visited set is passed by
  reference in the source, so it is threaded here: each call returns its answer and the
  set as it left it, and the next operand starts from that set.
\<close>

function isInvariantValue ::
    "SILInstruction list \<Rightarrow> Invariants \<Rightarrow> SILValue \<Rightarrow> SILNode set \<Rightarrow> bool \<times> SILNode set"
  and isInvariantOperands ::
    "SILInstruction list \<Rightarrow> Invariants \<Rightarrow> SILValue list \<Rightarrow> SILNode set \<Rightarrow> bool \<times> SILNode set"
where
  "isInvariantValue insts invariants v visited =
     (let node = getRepresentativeSILNodeInObject v in
      if node \<in> visited then (True, visited)
      else
        (case findInstruction insts node of
           Some inst \<Rightarrow>
             if \<not> isMemoryInvariant invariants \<and> mayReadFromMemory inst
             then (False, insert node visited)
             else isInvariantOperands insts invariants (getAllOperands inst) (insert node visited)
         | None \<Rightarrow>
             (case v of
                FunctionArgument idx \<Rightarrow> (isArgumentInvariant invariants idx, insert node visited)
              | InstructionResult i k \<Rightarrow> (False, insert node visited)
              | OtherValue n \<Rightarrow> (False, insert node visited))))"
| "isInvariantOperands insts invariants [] visited = (True, visited)"
| "isInvariantOperands insts invariants (op # ops) visited =
     (case isInvariantValue insts invariants op visited of
        (ok, visited') \<Rightarrow>
          if ok then isInvariantOperands insts invariants ops visited'
          else (False, visited'))"
  by pat_completeness auto

text \<open>
  Termination: every call that goes on to the operands has put a new instruction node
  into the visited set, and the function has finitely many instructions.
\<close>

lemma visited_mono:
  "isInvariantValue_isInvariantOperands_dom (Inl (insts, invariants, v, visited))
     \<Longrightarrow> visited \<subseteq> snd (isInvariantValue insts invariants v visited)"
  "isInvariantValue_isInvariantOperands_dom (Inr (insts, invariants, ops, visited))
     \<Longrightarrow> visited \<subseteq> snd (isInvariantOperands insts invariants ops visited)"
proof (induction rule: isInvariantValue_isInvariantOperands.pinduct)
  case (1 insts invariants v visited)
  then show ?case
    by (auto simp: isInvariantValue.psimps Let_def split: option.splits SILValue.splits)
next
  case (2 insts invariants visited)
  then show ?case by (simp add: isInvariantOperands.psimps)
next
  case (3 insts invariants op ops visited)
  obtain ok visited' where r: "isInvariantValue insts invariants op visited = (ok, visited')"
    by (cases "isInvariantValue insts invariants op visited")
  from 3(2) r have sub: "visited \<subseteq> visited'" by simp
  show ?case
  proof (cases ok)
    case True
    with 3(3) [OF r [symmetric]] have "visited' \<subseteq> snd (isInvariantOperands insts invariants ops visited')"
      by simp
    with sub True r 3(1) show ?thesis by (auto simp: isInvariantOperands.psimps)
  next
    case False
    with sub r 3(1) show ?thesis by (simp add: isInvariantOperands.psimps)
  qed
qed

definition unvisited :: "SILInstruction list \<Rightarrow> SILNode set \<Rightarrow> nat" where
  "unvisited insts visited = card (InstructionNode ` instId ` set insts - visited)"

lemma unvisited_mono: "visited \<subseteq> visited' \<Longrightarrow> unvisited insts visited' \<le> unvisited insts visited"
  unfolding unvisited_def by (intro card_mono) auto

lemma unvisited_insert:
  assumes "findInstruction insts node = Some inst" and "node \<notin> visited"
  shows "unvisited insts (insert node visited) < unvisited insts visited"
proof -
  from assms(1) obtain i where node: "node = InstructionNode i"
    and f: "find (\<lambda>inst. instId inst = i) insts = Some inst"
    by (auto simp: findInstruction_def split: SILNode.splits)
  from f have "inst \<in> set insts" and "instId inst = i"
    by (auto simp: find_Some_iff)
  then have "node \<in> InstructionNode ` instId ` set insts" using node by auto
  with assms(2) show ?thesis
    unfolding unvisited_def
    by (intro psubset_card_mono) auto
qed

definition walkMeasure ::
  "SILInstruction list \<times> Invariants \<times> SILValue \<times> SILNode set
     + SILInstruction list \<times> Invariants \<times> SILValue list \<times> SILNode set \<Rightarrow> nat \<times> nat"
where
  "walkMeasure x =
     (case x of
        Inl (insts, invariants, v, visited) \<Rightarrow> (unvisited insts visited, 0)
      | Inr (insts, invariants, ops, visited) \<Rightarrow> (unvisited insts visited, Suc (length ops)))"

lemma walk_next_operand:
  assumes "isInvariantValue_isInvariantOperands_dom (Inl (insts, invariants, op, visited))"
    and "(ok, y) = isInvariantValue insts invariants op visited"
  shows "(Inr (insts, invariants, ops, y), Inr (insts, invariants, op # ops, visited))
     \<in> inv_image (less_than <*lex*> less_than) walkMeasure"
proof -
  from assms have "visited \<subseteq> y" using visited_mono(1) [of insts invariants op visited]
    by (metis snd_conv)
  then have "unvisited insts y \<le> unvisited insts visited" by (rule unvisited_mono)
  then show ?thesis by (auto simp: walkMeasure_def)
qed

lemma isInvariantValue_total: "All isInvariantValue_isInvariantOperands_dom"
proof (relation "inv_image (less_than <*lex*> less_than) walkMeasure")
  show "wf (inv_image (less_than <*lex*> less_than) walkMeasure)"
    by (intro wf_inv_image wf_lex_prod wf_less_than)
next
  fix insts invariants v visited x xa
  assume "x = getRepresentativeSILNodeInObject v" "x \<notin> visited" "findInstruction insts x = Some xa"
  then show "(Inr (insts, invariants, getAllOperands xa, insert x visited), Inl (insts, invariants, v, visited))
     \<in> inv_image (less_than <*lex*> less_than) walkMeasure"
    by (simp add: walkMeasure_def unvisited_insert)
next
  fix insts invariants op ops visited
  show "(Inl (insts, invariants, op, visited), Inr (insts, invariants, op # ops, visited))
     \<in> inv_image (less_than <*lex*> less_than) walkMeasure"
    by (simp add: walkMeasure_def)
qed (blast intro: walk_next_operand)

termination isInvariantValue
  by (rule isInvariantValue_total)

declare isInvariantValue.simps [simp del]

text \<open>
  \<open>isInvariant\<close> of a terminator. \<open>getOperand(0)\<close> of a terminator without operands is
  an index past the end.
\<close>

definition isInvariant :: "SILInstruction list \<Rightarrow> Invariants \<Rightarrow> TermInst \<Rightarrow> abort + bool" where
  "isInvariant insts invariants term =
     (let walk =
        (case getAllOperands (asInstruction term) of
           [] \<Rightarrow> Inl IndexOutOfRange
         | op # ops \<Rightarrow> Inr (fst (isInvariantValue insts invariants op {})))
      in case getTermKind term of
           SwitchEnumAddrInst \<Rightarrow> if \<not> isMemoryInvariant invariants then Inr False else walk
         | CheckedCastAddrBranchInst \<Rightarrow> if \<not> isMemoryInvariant invariants then Inr False else walk
         | CondBranchInst \<Rightarrow> walk
         | SwitchValueInst \<Rightarrow> walk
         | SwitchEnumInst \<Rightarrow> walk
         | CheckedCastBranchInst \<Rightarrow> walk
         | CheckedCastValueBranchInst \<Rightarrow> walk
         | OtherTermKind \<Rightarrow> Inr False)"

section \<open>Block summaries\<close>

text \<open>
  \<open>recursiveCall\<close> is a pointer to an instruction in the source and the instruction here;
  \<open>None\<close> is the null pointer.
\<close>

record BlockInfo =
  recursiveCall :: "SILInstruction option"
  numSuccsNotReachingReturn :: nat
  hasInvariantCondition :: bool
  reachesReturn :: bool
  reachableFromEntry :: bool

text \<open>
  The body of the constructor's loop for one instruction: \<open>Some\<close> of the summary when the
  constructor returns at this instruction, \<open>None\<close> when the loop goes on.
\<close>

definition visitInstruction ::
  "SILModule \<Rightarrow> SILFunction \<Rightarrow> Invariants \<Rightarrow> SILInstruction \<Rightarrow> BlockInfo
     \<Rightarrow> abort + BlockInfo option"
where
  "visitInstruction module function invariants inst blockInfo =
     (let memoryWrite =
        (if isMemoryInvariant invariants \<and> mayWriteToMemory inst
         then Inr (Some (blockInfo\<lparr>reachesReturn := True\<rparr>))
         else Inr None)
      in case asFullApplySite inst of
           None \<Rightarrow> memoryWrite
         | Some applySite \<Rightarrow>
             if isCalleeKnownProgramTerminationPoint applySite then Inr (Some blockInfo)
             else if isRecursiveCall module function applySite then
               (case hasInvariantArguments module function invariants applySite of
                  Inl e \<Rightarrow> Inl e
                | Inr forwards \<Rightarrow>
                    if forwards then Inr (Some (blockInfo\<lparr>recursiveCall := Some inst\<rparr>))
                    else memoryWrite)
             else memoryWrite)"

text \<open>
  The loop: \<open>True\<close> when the constructor returned from inside it.
\<close>

fun scanInstructions ::
  "SILModule \<Rightarrow> SILFunction \<Rightarrow> Invariants \<Rightarrow> SILInstruction list \<Rightarrow> BlockInfo
     \<Rightarrow> abort + bool \<times> BlockInfo"
where
  "scanInstructions module function invariants [] blockInfo = Inr (False, blockInfo)"
| "scanInstructions module function invariants (inst # rest) blockInfo =
     (case visitInstruction module function invariants inst blockInfo of
        Inl e \<Rightarrow> Inl e
      | Inr (Some returned) \<Rightarrow> Inr (True, returned)
      | Inr None \<Rightarrow> scanInstructions module function invariants rest blockInfo)"

text \<open>
  The constructor \<open>BlockInfo(block, invariants)\<close>: the member initialisers first (the
  successor count and the invariance of the terminator's condition), then the loop, then
  the terminator.
\<close>

definition BlockInfo ::
  "SILModule \<Rightarrow> SILFunction \<Rightarrow> SILBasicBlock \<Rightarrow> Invariants \<Rightarrow> abort + BlockInfo"
where
  "BlockInfo module function block invariants =
     (case isInvariant (functionInstructions function) invariants (getTerminator block) of
        Inl e \<Rightarrow> Inl e
      | Inr invariantCondition \<Rightarrow>
          (case scanInstructions module function invariants (blockInstructions block)
                  \<lparr>recursiveCall = None,
                   numSuccsNotReachingReturn = length (getSuccessorBlocks block),
                   hasInvariantCondition = invariantCondition,
                   reachesReturn = False,
                   reachableFromEntry = False\<rparr> of
             Inl e \<Rightarrow> Inl e
           | Inr (returned, blockInfo) \<Rightarrow>
               if returned then Inr blockInfo
               else if isFunctionExiting (getTerminator block)
                       \<or> isProgramTerminating (getTerminator block)
               then Inr (blockInfo\<lparr>reachesReturn := True\<rparr>)
               else Inr blockInfo))"

section \<open>Backward propagation\<close>

text \<open>
  The map \<open>blockInfos\<close> is the list of the summaries by block position. \<open>info\<close> of a
  block without a summary would construct an empty \<open>BlockInfo\<close>, which is
  \<open>llvm_unreachable\<close>. A work list is kept with its back at the head of the list:
  \<open>push_back\<close> is \<open>#\<close>, \<open>pop_back_val\<close> takes the head.
\<close>

definition info :: "BlockInfo list \<Rightarrow> nat \<Rightarrow> abort + BlockInfo" where
  "info blockInfos block =
     (if block < length blockInfos then Inr (blockInfos ! block) else Inl UnreachableExecuted)"

definition getBlock :: "SILFunction \<Rightarrow> nat \<Rightarrow> abort + SILBasicBlock" where
  "getBlock function block =
     (if block < length (getBlocks function) then Inr (getBlocks function ! block)
      else Inl IndexOutOfRange)"

text \<open>The first loop of \<open>isEntryReachableFromReturn\<close>.\<close>

fun initBlockInfos ::
  "SILModule \<Rightarrow> SILFunction \<Rightarrow> Invariants \<Rightarrow> SILBasicBlock list \<Rightarrow> BlockInfo list \<times> nat list
     \<Rightarrow> abort + BlockInfo list \<times> nat list"
where
  "initBlockInfos module function invariants [] (blockInfos, workList) =
     Inr (blockInfos, workList)"
| "initBlockInfos module function invariants (block # rest) (blockInfos, workList) =
     (case BlockInfo module function block invariants of
        Inl e \<Rightarrow> Inl e
      | Inr blockInfo \<Rightarrow>
          initBlockInfos module function invariants rest
            (blockInfos @ [blockInfo],
             if reachesReturn blockInfo then length blockInfos # workList else workList))"

text \<open>The body of the loop over the predecessors of the popped block, and the loop.\<close>

definition visitPredecessor ::
  "nat \<Rightarrow> BlockInfo list \<times> nat list \<Rightarrow> abort + BlockInfo list \<times> nat list"
where
  "visitPredecessor pred state =
     (case state of (blockInfos, workList) \<Rightarrow>
        (case info blockInfos pred of
           Inl e \<Rightarrow> Inl e
         | Inr predInfo \<Rightarrow>
             if reachesReturn predInfo \<or> recursiveCall predInfo \<noteq> None then Inr state
             else if \<not> 0 < numSuccsNotReachingReturn predInfo then Inl AssertionFailure
             else
               let predInfo = predInfo\<lparr>numSuccsNotReachingReturn :=
                                         numSuccsNotReachingReturn predInfo - 1\<rparr>
               in if hasInvariantCondition predInfo \<and> 0 < numSuccsNotReachingReturn predInfo
                  then Inr (blockInfos[pred := predInfo], workList)
                  else Inr (blockInfos[pred := predInfo\<lparr>reachesReturn := True\<rparr>],
                            pred # workList)))"

fun visitPredecessors ::
  "nat list \<Rightarrow> BlockInfo list \<times> nat list \<Rightarrow> abort + BlockInfo list \<times> nat list"
where
  "visitPredecessors [] state = Inr state"
| "visitPredecessors (pred # preds) state =
     (case visitPredecessor pred state of
        Inl e \<Rightarrow> Inl e
      | Inr state' \<Rightarrow> visitPredecessors preds state')"

text \<open>
  The work-list loop ends: a block is pushed only when its \<open>reachesReturn\<close> goes from
  false to true, so the number of blocks without the flag plus the length of the work list
  goes down by one with every block popped.
\<close>

definition notReachingReturn :: "BlockInfo list \<Rightarrow> nat" where
  "notReachingReturn blockInfos = length (filter (\<lambda>blockInfo. \<not> reachesReturn blockInfo) blockInfos)"


lemma length_filter_update:
  "i < length xs \<Longrightarrow>
     length (filter P (xs[i := y])) + (if P (xs ! i) then 1 else 0)
       = length (filter P xs) + (if P y then 1 else 0)"
proof (induction xs arbitrary: i)
  case Nil
  then show ?case by simp
next
  case (Cons x xs)
  show ?case
  proof (cases i)
    case 0
    then show ?thesis by simp
  next
    case (Suc j)
    with Cons.prems have "j < length xs" by simp
    from Cons.IH [OF this] Suc show ?thesis by simp
  qed
qed

lemma visitPredecessor_measure:
  assumes "visitPredecessor pred (blockInfos, workList) = Inr (blockInfos', workList')"
  shows "notReachingReturn blockInfos' + length workList'
           = notReachingReturn blockInfos + length workList"
proof -
  from assms have lt: "pred < length blockInfos"
    by (auto simp: visitPredecessor_def info_def split: if_splits)
  let ?old = "blockInfos ! pred"
  let ?dec = "?old\<lparr>numSuccsNotReachingReturn := numSuccsNotReachingReturn ?old - 1\<rparr>"
  have "(blockInfos' = blockInfos \<and> workList' = workList)
      \<or> (\<not> reachesReturn ?old \<and> blockInfos' = blockInfos[pred := ?dec] \<and> workList' = workList)
      \<or> (\<not> reachesReturn ?old \<and> blockInfos' = blockInfos[pred := ?dec\<lparr>reachesReturn := True\<rparr>]
           \<and> workList' = pred # workList)"
    using assms lt unfolding visitPredecessor_def info_def Let_def
    by (simp split: if_splits)
  then consider (skip) "blockInfos' = blockInfos" "workList' = workList"
    | (wait) "\<not> reachesReturn ?old" "blockInfos' = blockInfos[pred := ?dec]" "workList' = workList"
    | (push) "\<not> reachesReturn ?old"
        "blockInfos' = blockInfos[pred := ?dec\<lparr>reachesReturn := True\<rparr>]"
        "workList' = pred # workList"
    by blast
  then show ?thesis
  proof cases
    case skip
    then show ?thesis by simp
  next
    case wait
    with length_filter_update [OF lt, of "\<lambda>b. \<not> reachesReturn b" ?dec]
    show ?thesis by (simp add: notReachingReturn_def)
  next
    case push
    with length_filter_update [OF lt, of "\<lambda>b. \<not> reachesReturn b" "?dec\<lparr>reachesReturn := True\<rparr>"]
    show ?thesis by (simp add: notReachingReturn_def)
  qed
qed

lemma visitPredecessors_measure:
  "visitPredecessors preds (blockInfos, workList) = Inr (blockInfos', workList')
     \<Longrightarrow> notReachingReturn blockInfos' + length workList'
           = notReachingReturn blockInfos + length workList"
proof (induction preds arbitrary: blockInfos workList)
  case Nil
  then show ?case by simp
next
  case (Cons pred preds)
  from Cons.prems obtain midInfos midList
    where step: "visitPredecessor pred (blockInfos, workList) = Inr (midInfos, midList)"
      and rest: "visitPredecessors preds (midInfos, midList) = Inr (blockInfos', workList')"
    by (auto split: sum.splits)
  from Cons.IH [OF rest] visitPredecessor_measure [OF step] show ?case by simp
qed

function propagateReachesReturn ::
  "SILFunction \<Rightarrow> BlockInfo list \<times> nat list \<Rightarrow> abort + BlockInfo list"
where
  "propagateReachesReturn function (blockInfos, []) = Inr blockInfos"
| "propagateReachesReturn function (blockInfos, block # workList) =
     (case getBlock function block of
        Inl e \<Rightarrow> Inl e
      | Inr popped \<Rightarrow>
          (case visitPredecessors (getPredecessorBlocks popped) (blockInfos, workList) of
             Inl e \<Rightarrow> Inl e
           | Inr state' \<Rightarrow> propagateReachesReturn function state'))"
  by pat_completeness auto
termination propagateReachesReturn
proof (relation "measure (\<lambda>(function, blockInfos, workList).
                   notReachingReturn blockInfos + length workList)")
  show "wf (measure (\<lambda>(function, blockInfos, workList).
                   notReachingReturn blockInfos + length workList))"
    by simp
next
  fix f :: SILFunction and blockInfos block workList popped state'
  assume "visitPredecessors (getPredecessorBlocks popped) (blockInfos, workList) = Inr state'"
  then show "((f, state'), f, blockInfos, block # workList)
     \<in> measure (\<lambda>(function, blockInfos, workList).
                   notReachingReturn blockInfos + length workList)"
    by (cases state') (auto dest: visitPredecessors_measure)
qed

text \<open>
  The function returns the flag of the entry block; the summaries stay in the analysis
  object for the forward pass, so they are returned with it.
\<close>

definition isEntryReachableFromReturn ::
  "SILModule \<Rightarrow> SILFunction \<Rightarrow> Invariants \<Rightarrow> abort + bool \<times> BlockInfo list"
where
  "isEntryReachableFromReturn module function invariants =
     (case initBlockInfos module function invariants (getBlocks function) ([], []) of
        Inl e \<Rightarrow> Inl e
      | Inr state \<Rightarrow>
          (case propagateReachesReturn function state of
             Inl e \<Rightarrow> Inl e
           | Inr blockInfos \<Rightarrow>
               (case info blockInfos 0 of
                  Inl e \<Rightarrow> Inl e
                | Inr entryInfo \<Rightarrow> Inr (reachesReturn entryInfo, blockInfos))))"

section \<open>Forward propagation and diagnosis\<close>

definition visitSuccessor ::
  "nat \<Rightarrow> BlockInfo list \<times> nat list \<Rightarrow> abort + BlockInfo list \<times> nat list"
where
  "visitSuccessor succ state =
     (case state of (blockInfos, workList) \<Rightarrow>
        (case info blockInfos succ of
           Inl e \<Rightarrow> Inl e
         | Inr succInfo \<Rightarrow>
             if \<not> reachesReturn succInfo \<and> \<not> reachableFromEntry succInfo
             then Inr (blockInfos[succ := succInfo\<lparr>reachableFromEntry := True\<rparr>],
                       succ # workList)
             else Inr state))"

fun visitSuccessors ::
  "nat list \<Rightarrow> BlockInfo list \<times> nat list \<Rightarrow> abort + BlockInfo list \<times> nat list"
where
  "visitSuccessors [] state = Inr state"
| "visitSuccessors (succ # succs) state =
     (case visitSuccessor succ state of
        Inl e \<Rightarrow> Inl e
      | Inr state' \<Rightarrow> visitSuccessors succs state')"

definition notReachableFromEntry :: "BlockInfo list \<Rightarrow> nat" where
  "notReachableFromEntry blockInfos =
     length (filter (\<lambda>blockInfo. \<not> reachableFromEntry blockInfo) blockInfos)"

lemma visitSuccessor_measure:
  assumes "visitSuccessor succ (blockInfos, workList) = Inr (blockInfos', workList')"
  shows "notReachableFromEntry blockInfos' + length workList'
           = notReachableFromEntry blockInfos + length workList"
proof -
  from assms have lt: "succ < length blockInfos"
    by (auto simp: visitSuccessor_def info_def split: if_splits)
  let ?old = "blockInfos ! succ"
  have "(blockInfos' = blockInfos \<and> workList' = workList)
      \<or> (\<not> reachableFromEntry ?old
           \<and> blockInfos' = blockInfos[succ := ?old\<lparr>reachableFromEntry := True\<rparr>]
           \<and> workList' = succ # workList)"
    using assms lt unfolding visitSuccessor_def info_def
    by (simp split: if_splits)
  then show ?thesis
  proof (elim disjE conjE)
    assume "blockInfos' = blockInfos" "workList' = workList"
    then show ?thesis by simp
  next
    assume "\<not> reachableFromEntry ?old"
      "blockInfos' = blockInfos[succ := ?old\<lparr>reachableFromEntry := True\<rparr>]"
      "workList' = succ # workList"
    with length_filter_update [OF lt, of "\<lambda>b. \<not> reachableFromEntry b"
        "?old\<lparr>reachableFromEntry := True\<rparr>"]
    show ?thesis by (simp add: notReachableFromEntry_def)
  qed
qed

lemma visitSuccessors_measure:
  "visitSuccessors succs (blockInfos, workList) = Inr (blockInfos', workList')
     \<Longrightarrow> notReachableFromEntry blockInfos' + length workList'
           = notReachableFromEntry blockInfos + length workList"
proof (induction succs arbitrary: blockInfos workList)
  case Nil
  then show ?case by simp
next
  case (Cons succ succs)
  from Cons.prems obtain midInfos midList
    where step: "visitSuccessor succ (blockInfos, workList) = Inr (midInfos, midList)"
      and rest: "visitSuccessors succs (midInfos, midList) = Inr (blockInfos', workList')"
    by (auto split: sum.splits)
  from Cons.IH [OF rest] visitSuccessor_measure [OF step] show ?case by simp
qed

text \<open>
  The work-list loop of \<open>findRecursiveCallsAndDiagnose\<close>. The diagnostic engine is not
  part of the source files: a warning is recorded as the recursive call it is issued at,
  in the order of issue.
\<close>

function diagnoseReachable ::
  "SILFunction \<Rightarrow> BlockInfo list \<times> nat list \<Rightarrow> SILInstruction list \<times> bool
     \<Rightarrow> abort + SILInstruction list \<times> bool"
where
  "diagnoseReachable function (blockInfos, []) (diagnosed, foundInfiniteRecursion) =
     Inr (diagnosed, foundInfiniteRecursion)"
| "diagnoseReachable function (blockInfos, block # workList) (diagnosed, foundInfiniteRecursion) =
     (case info blockInfos block of
        Inl e \<Rightarrow> Inl e
      | Inr blockInfo \<Rightarrow>
          (case recursiveCall blockInfo of
             Some call \<Rightarrow>
               diagnoseReachable function (blockInfos, workList) (diagnosed @ [call], True)
           | None \<Rightarrow>
               (case getBlock function block of
                  Inl e \<Rightarrow> Inl e
                | Inr popped \<Rightarrow>
                    (case visitSuccessors (getSuccessorBlocks popped) (blockInfos, workList) of
                       Inl e \<Rightarrow> Inl e
                     | Inr state' \<Rightarrow>
                         diagnoseReachable function state'
                           (diagnosed, foundInfiniteRecursion)))))"
  by pat_completeness auto
termination diagnoseReachable
proof (relation "measure (\<lambda>(f, (blockInfos, workList), out).
                   notReachableFromEntry blockInfos + length workList)")
  show "wf (measure (\<lambda>(f, (blockInfos, workList), out).
                   notReachableFromEntry blockInfos + length workList))"
    by simp
next
  fix f :: SILFunction and blockInfos block workList popped state'
    and diagnosed :: "SILInstruction list" and foundInfiniteRecursion :: bool
  assume "visitSuccessors (getSuccessorBlocks popped) (blockInfos, workList) = Inr state'"
  then show "((f, state', diagnosed, foundInfiniteRecursion),
              f, (blockInfos, block # workList), diagnosed, foundInfiniteRecursion)
     \<in> measure (\<lambda>(f, (blockInfos, workList), out).
                   notReachableFromEntry blockInfos + length workList)"
    by (cases state') (auto dest: visitSuccessors_measure)
qed simp

definition findRecursiveCallsAndDiagnose ::
  "SILFunction \<Rightarrow> BlockInfo list \<Rightarrow> abort + SILInstruction list \<times> bool"
where
  "findRecursiveCallsAndDiagnose function blockInfos =
     (case info blockInfos 0 of
        Inl e \<Rightarrow> Inl e
      | Inr entryInfo \<Rightarrow>
          diagnoseReachable function
            (blockInfos[0 := entryInfo\<lparr>reachableFromEntry := True\<rparr>], [0]) ([], False))"

definition analyzeAndDiagnose ::
  "SILModule \<Rightarrow> SILFunction \<Rightarrow> Invariants \<Rightarrow> abort + SILInstruction list \<times> bool"
where
  "analyzeAndDiagnose module function invariants =
     (case isEntryReachableFromReturn module function invariants of
        Inl e \<Rightarrow> Inl e
      | Inr (entryReachesReturn, blockInfos) \<Rightarrow>
          if entryReachesReturn then Inr ([], False)
          else findRecursiveCallsAndDiagnose function blockInfos)"

section \<open>The driver\<close>

text \<open>
  \<open>InvariantsSet\<close> is a \<open>SmallSetVector\<close>: insertion keeps the order of first insertion
  and drops a value that is already there.
\<close>

definition setVectorInsert :: "Invariants \<Rightarrow> Invariants list \<Rightarrow> Invariants list" where
  "setVectorInsert invariants invariantsToTry =
     (if invariants \<in> set invariantsToTry then invariantsToTry
      else invariantsToTry @ [invariants])"

text \<open>
  The two nested loops of \<open>collectInvariantsToTry\<close> visit the instructions of the
  function block by block, and the early return leaves both: this is one loop over
  \<open>functionInstructions\<close>.
\<close>

fun collectFromInstructions ::
  "SILModule \<Rightarrow> SILFunction \<Rightarrow> SILInstruction list \<Rightarrow> Invariants list \<times> bool
     \<Rightarrow> abort + Invariants list \<times> bool"
where
  "collectFromInstructions module function [] (invariantsToTry, recursiveCallsFound) =
     Inr (invariantsToTry, recursiveCallsFound)"
| "collectFromInstructions module function (inst # rest) (invariantsToTry, recursiveCallsFound) =
     (case asFullApplySite inst of
        None \<Rightarrow>
          collectFromInstructions module function rest (invariantsToTry, recursiveCallsFound)
      | Some applySite \<Rightarrow>
          if isRecursiveCall module function applySite then
            (case fromForwardingArguments module function applySite of
               Inl e \<Rightarrow> Inl e
             | Inr invariants \<Rightarrow>
                 let invariantsToTry = setVectorInsert invariants invariantsToTry
                 in if 4 \<le> length invariantsToTry then Inr (invariantsToTry, True)
                    else collectFromInstructions module function rest (invariantsToTry, True))
          else collectFromInstructions module function rest
                 (invariantsToTry, recursiveCallsFound))"

definition collectInvariantsToTry ::
  "SILModule \<Rightarrow> SILFunction \<Rightarrow> abort + Invariants list \<times> bool"
where
  "collectInvariantsToTry module function =
     collectFromInstructions module function (functionInstructions function)
       (setVectorInsert noInvariants [], False)"

text \<open>
  What one run of the pass on a function leaves behind: the warnings issued, the failure
  it stopped with if any, and (an instrumentation of the model, the source keeps no such
  list) the invariants of every call of \<open>analyzeAndDiagnose\<close>, in order. A call that
  fails does not say which warnings it had issued before.
\<close>

record PassRun =
  attempts :: "Invariants list"
  diagnosed :: "SILInstruction list"
  aborted :: "abort option"

text \<open>One call of \<open>analyzeAndDiagnose\<close> from \<open>run\<close>; \<open>True\<close> when \<open>run\<close> returns after it.\<close>

definition attempt ::
  "SILModule \<Rightarrow> SILFunction \<Rightarrow> Invariants \<Rightarrow> PassRun \<Rightarrow> PassRun \<times> bool"
where
  "attempt module function invariants passRun =
     (case analyzeAndDiagnose module function invariants of
        Inl e \<Rightarrow>
          (passRun\<lparr>attempts := attempts passRun @ [invariants], aborted := Some e\<rparr>, True)
      | Inr (warnings, found) \<Rightarrow>
          (passRun\<lparr>attempts := attempts passRun @ [invariants],
                   diagnosed := diagnosed passRun @ warnings\<rparr>, found))"

fun tryInvariants ::
  "SILModule \<Rightarrow> SILFunction \<Rightarrow> Invariants list \<Rightarrow> PassRun \<Rightarrow> PassRun"
where
  "tryInvariants module function [] passRun = passRun"
| "tryInvariants module function (invariants # rest) passRun =
     (case attempt module function invariants passRun of
        (passRun1, stop1) \<Rightarrow>
          if stop1 then passRun1
          else
            (case attempt module function (withInvariantMemory invariants) passRun1 of
               (passRun2, stop2) \<Rightarrow>
                 if stop2 then passRun2
                 else tryInvariants module function rest passRun2))"

definition run :: "SILModule \<Rightarrow> SILFunction \<Rightarrow> PassRun" where
  "run module function =
     (let passRun = \<lparr>attempts = [], diagnosed = [], aborted = None\<rparr>
      in if wasDeserializedCanonical function then passRun
         else
           (case collectInvariantsToTry module function of
              Inl e \<Rightarrow> passRun\<lparr>aborted := Some e\<rparr>
            | Inr (invariantsToTry, recursiveCallsFound) \<Rightarrow>
                if \<not> recursiveCallsFound then passRun
                else tryInvariants module function invariantsToTry passRun))"

section \<open>Fingerprints\<close>

text \<open>
  Modelled from the spec: the header that declares the class \<open>Fingerprint\<close>, with its
  \<open>core\<close> pair, \<open>DIGEST_LENGTH\<close> and \<open>ZERO\<close>, is not among the source files. The
  specification calls it a fixed-length hex codec over a 128-bit pair: a fingerprint is a
  pair of 64-bit words, \<open>DIGEST_LENGTH\<close> is the 32 that the assertion in \<open>fromString\<close>
  names, and \<open>ZERO\<close> is the pair of zeros.
\<close>

record Fingerprint =
  first :: "64 word"
  second :: "64 word"

definition DIGEST_LENGTH :: nat where
  "DIGEST_LENGTH = 32"

definition ZERO :: Fingerprint where
  "ZERO = \<lparr>first = 0, second = 0\<rparr>"

text \<open>
  \<open>llvm::format_hex_no_prefix(N, Width)\<close> written to a stream, a function of the LLVM
  support library: the digits of \<open>N\<close> in lower case, most significant first, as many as
  \<open>N\<close> has nibbles (none for 0), filled with \<open>0\<close> on the left up to the width, and up
  to one character at least.
\<close>

definition hexdigit :: "nat \<Rightarrow> char" where
  "hexdigit X = ''0123456789abcdef'' ! X"

function write_hex_digits :: "nat \<Rightarrow> string" where
  "write_hex_digits N =
     (if N = 0 then [] else write_hex_digits (N div 16) @ [hexdigit (N mod 16)])"
  by pat_completeness auto
termination
  by (relation "measure id") auto

declare write_hex_digits.simps [simp del]

definition format_hex_no_prefix :: "64 word \<Rightarrow> nat \<Rightarrow> string" where
  "format_hex_no_prefix N Width =
     (let digits = write_hex_digits (unat N);
          Nibbles = length digits;
          NumChars = max (min 128 Width) (max 1 Nibbles)
      in replicate (NumChars - Nibbles) CHR ''0'' @ digits)"

definition getRawValue :: "Fingerprint \<Rightarrow> string" where
  "getRawValue fp = format_hex_no_prefix (first fp) 16 @ format_hex_no_prefix (second fp) 16"

text \<open>
  \<open>stream >> std::hex >> value\<close> of the C++ standard library, for an unsigned 64-bit
  value on a fresh string stream:
  white space is skipped, then a sign, then \<open>0x\<close> or \<open>0X\<close> when a hexadecimal digit
  follows it, then hexadecimal digits of either case as long as they come. No digit
  stores 0, a number that does not fit stores the largest value, a minus sign negates
  modulo \<open>2 ^ 64\<close>.
\<close>

definition isspace :: "char \<Rightarrow> bool" where
  "isspace c = (c \<in> set [CHR '' '', CHR 0x09, CHR 0x0A, CHR 0x0B, CHR 0x0C, CHR 0x0D])"

definition hexval :: "char \<Rightarrow> nat option" where
  "hexval c =
     (let n = (of_char c :: nat) in
      if 48 \<le> n \<and> n \<le> 57 then Some (n - 48)
      else if 97 \<le> n \<and> n \<le> 102 then Some (n - 87)
      else if 65 \<le> n \<and> n \<le> 70 then Some (n - 55)
      else None)"

definition isxdigit :: "char \<Rightarrow> bool" where
  "isxdigit c = (hexval c \<noteq> None)"

definition strip_sign :: "string \<Rightarrow> bool \<times> string" where
  "strip_sign s =
     (case s of
        [] \<Rightarrow> (False, s)
      | c # rest \<Rightarrow>
          if c = CHR ''-'' then (True, rest)
          else if c = CHR ''+'' then (False, rest)
          else (False, s))"

definition strip_hex_prefix :: "string \<Rightarrow> string" where
  "strip_hex_prefix s =
     (case s of
        z # x # d # rest \<Rightarrow>
          if z = CHR ''0'' \<and> (x = CHR ''x'' \<or> x = CHR ''X'') \<and> isxdigit d then d # rest else s
      | _ \<Rightarrow> s)"

definition accumulate_hex :: "string \<Rightarrow> nat" where
  "accumulate_hex ds = foldl (\<lambda>acc c. acc * 16 + the (hexval c)) 0 ds"

definition istream_extract_hex :: "string \<Rightarrow> 64 word" where
  "istream_extract_hex s =
     (let (negative, s1) = strip_sign (dropWhile isspace s);
          ds = takeWhile isxdigit (strip_hex_prefix s1);
          v = accumulate_hex ds
      in if ds = [] then 0
         else if 2 ^ 64 \<le> v then - 1
         else if negative then - (of_nat v) else of_nat v)"

text \<open>
  \<open>Fingerprint::fromString\<close>. \<open>drop_back\<close> and \<open>drop_front\<close> of a \<open>StringRef\<close> are
  \<open>take\<close> and \<open>drop\<close>; the inner option is the \<open>Optional\<close> of the source.
\<close>

definition fromString :: "string \<Rightarrow> abort + Fingerprint option" where
  "fromString v =
     (if length v \<noteq> DIGEST_LENGTH then Inl AssertionFailure
      else
        let fp = ZERO;
            fp = fp\<lparr>first := istream_extract_hex (take (length v - DIGEST_LENGTH div 2) v)\<rparr>;
            fp = fp\<lparr>second := istream_extract_hex (drop (DIGEST_LENGTH div 2) v)\<rparr>
        in if v \<noteq> getRawValue fp then Inr None else Inr (Some fp))"

section \<open>Properties of the fingerprint codec\<close>

lemma write_hex_digits_0: "write_hex_digits 0 = []"
  by (simp add: write_hex_digits.simps)

lemma write_hex_digits_pos:
  "0 < N \<Longrightarrow> write_hex_digits N = write_hex_digits (N div 16) @ [hexdigit (N mod 16)]"
  by (subst write_hex_digits.simps) simp

definition lowerHexChars :: "char set" where
  "lowerHexChars = set ''0123456789abcdef''"

lemma hexdigit_table:
  assumes "k < 16"
  shows "hexval (hexdigit k) = Some k \<and> hexdigit k \<in> lowerHexChars"
proof -
  from assms have "k = 0 \<or> k = 1 \<or> k = 2 \<or> k = 3 \<or> k = 4 \<or> k = 5 \<or> k = 6 \<or> k = 7 \<or> k = 8
      \<or> k = 9 \<or> k = 10 \<or> k = 11 \<or> k = 12 \<or> k = 13 \<or> k = 14 \<or> k = 15" by arith
  then show ?thesis
    by (elim disjE) (simp_all add: hexdigit_def hexval_def lowerHexChars_def)
qed

lemma lowerHexChars_props:
  "c \<in> lowerHexChars \<Longrightarrow>
     isxdigit c \<and> \<not> isspace c \<and> c \<noteq> CHR ''-'' \<and> c \<noteq> CHR ''+'' \<and> c \<noteq> CHR ''x'' \<and> c \<noteq> CHR ''X''"
  by (auto simp: lowerHexChars_def isxdigit_def hexval_def isspace_def)

lemma write_hex_digits_lower: "set (write_hex_digits n) \<subseteq> lowerHexChars"
proof (induction n rule: write_hex_digits.induct)
  case (1 N)
  show ?case
  proof (cases "N = 0")
    case True
    then show ?thesis by (simp add: write_hex_digits_0)
  next
    case False
    with 1 show ?thesis
      by (simp add: write_hex_digits_pos hexdigit_table)
  qed
qed

lemma accumulate_write_hex_digits: "accumulate_hex (write_hex_digits n) = n"
proof (induction n rule: write_hex_digits.induct)
  case (1 N)
  show ?case
  proof (cases "N = 0")
    case True
    then show ?thesis by (simp add: accumulate_hex_def write_hex_digits_0)
  next
    case False
    with 1 have "accumulate_hex (write_hex_digits (N div 16)) = N div 16" by simp
    with False show ?thesis
      by (simp add: write_hex_digits_pos accumulate_hex_def hexdigit_table)
  qed
qed

lemma length_write_hex_digits: "n < 16 ^ k \<Longrightarrow> length (write_hex_digits n) \<le> k"
proof (induction k arbitrary: n)
  case 0
  then show ?case by (simp add: write_hex_digits_0)
next
  case (Suc k)
  show ?case
  proof (cases "n = 0")
    case True
    then show ?thesis by (simp add: write_hex_digits_0)
  next
    case False
    from Suc.prems have "n div 16 < 16 ^ k"
      by (simp add: less_mult_imp_div_less mult.commute)
    then have "length (write_hex_digits (n div 16)) \<le> k" by (rule Suc.IH)
    with False show ?thesis
      by (simp add: write_hex_digits_pos)
  qed
qed

lemma accumulate_hex_zeros: "accumulate_hex (replicate m CHR ''0'' @ ds) = accumulate_hex ds"
  by (induction m) (simp_all add: accumulate_hex_def hexval_def)

lemma length_format_hex_no_prefix_16: "length (format_hex_no_prefix N 16) = 16"
proof -
  have "unat N < 16 ^ 16" using unsigned_less [of N, where ?'a = nat] by simp
  then have "length (write_hex_digits (unat N)) \<le> 16" by (rule length_write_hex_digits)
  then show ?thesis by (simp add: format_hex_no_prefix_def Let_def)
qed

lemma format_hex_no_prefix_lower: "set (format_hex_no_prefix N W) \<subseteq> lowerHexChars"
proof -
  have "CHR ''0'' \<in> lowerHexChars" by (simp add: lowerHexChars_def)
  with write_hex_digits_lower [of "unat N"] show ?thesis
    by (auto simp: format_hex_no_prefix_def Let_def)
qed

lemma accumulate_format_hex_no_prefix: "accumulate_hex (format_hex_no_prefix N W) = unat N"
  by (simp add: format_hex_no_prefix_def Let_def accumulate_hex_zeros accumulate_write_hex_digits)

lemma istream_extract_hex_format: "istream_extract_hex (format_hex_no_prefix N 16) = N"
proof -
  let ?s = "format_hex_no_prefix N 16"
  have len: "length ?s = 16" by (rule length_format_hex_no_prefix_16)
  have low: "\<forall>c\<in>set ?s. c \<in> lowerHexChars" using format_hex_no_prefix_lower by blast
  then have xs: "\<forall>c\<in>set ?s. isxdigit c" and ns: "\<forall>c\<in>set ?s. \<not> isspace c"
    by (simp_all add: lowerHexChars_props)
  from len obtain a b rest where s: "?s = a # b # rest"
    by (cases ?s; cases "tl ?s") auto
  with low have a: "a \<in> lowerHexChars" and b: "b \<in> lowerHexChars" by simp_all
  from ns s have dw: "dropWhile isspace ?s = ?s" by simp
  from a s have sg: "strip_sign ?s = (False, ?s)"
    by (auto simp: strip_sign_def dest: lowerHexChars_props)
  from b s have pf: "strip_hex_prefix ?s = ?s"
    by (auto simp: strip_hex_prefix_def split: list.splits dest: lowerHexChars_props)
  from xs have tw: "takeWhile isxdigit ?s = ?s" by simp
  have ne: "?s \<noteq> []" using s by simp
  have bound: "\<not> (2 ^ 64 \<le> unat N)" using unsigned_less [of N, where ?'a = nat] by simp
  show ?thesis
    unfolding istream_extract_hex_def dw sg
    using ne bound by (simp add: pf tw accumulate_format_hex_no_prefix)
qed

text \<open>
  C10. For every fingerprint, \<open>getRawValue\<close> is a string of 32 lower-case hexadecimal
  digits, and \<open>fromString\<close> of that string returns the fingerprint itself.
\<close>

theorem fromString_getRawValue:
  "length (getRawValue fp) = 32 \<and> set (getRawValue fp) \<subseteq> lowerHexChars
     \<and> fromString (getRawValue fp) = Inr (Some fp)"
proof -
  let ?a = "format_hex_no_prefix (first fp) 16" and ?b = "format_hex_no_prefix (second fp) 16"
  have la: "length ?a = 16" and lb: "length ?b = 16"
    by (rule length_format_hex_no_prefix_16)+
  have len: "length (getRawValue fp) = 32" by (simp add: getRawValue_def la lb)
  have low: "set (getRawValue fp) \<subseteq> lowerHexChars"
    using format_hex_no_prefix_lower by (simp add: getRawValue_def)
  have tk: "take (length (getRawValue fp) - DIGEST_LENGTH div 2) (getRawValue fp) = ?a"
    by (simp add: getRawValue_def DIGEST_LENGTH_def la lb)
  have dr: "drop (DIGEST_LENGTH div 2) (getRawValue fp) = ?b"
    by (simp add: getRawValue_def DIGEST_LENGTH_def la)
  have "fromString (getRawValue fp) = Inr (Some fp)"
    unfolding fromString_def tk dr Let_def
    by (simp add: len DIGEST_LENGTH_def istream_extract_hex_format ZERO_def)
       (simp add: getRawValue_def)
  with len low show ?thesis by simp
qed

definition exampleFingerprint :: Fingerprint where
  "exampleFingerprint = \<lparr>first = 0x1234, second = 0xdeadbeef00000000\<rparr>"

theorem fromString_getRawValue_witness:
  "getRawValue exampleFingerprint = ''0000000000001234deadbeef00000000''
     \<and> fromString ''0000000000001234deadbeef00000000'' = Inr (Some exampleFingerprint)"
proof -
  have pad: "replicate 12 CHR ''0'' = ''000000000000''"
    by (simp add: numeral_eq_Suc)
  have raw: "getRawValue exampleFingerprint = ''0000000000001234deadbeef00000000''"
    by (simp add: exampleFingerprint_def getRawValue_def format_hex_no_prefix_def
        write_hex_digits.simps hexdigit_def pad)
  from fromString_getRawValue [of exampleFingerprint] raw show ?thesis by simp
qed

section \<open>Properties of the call classifier\<close>

text \<open>
  A module in which member 1 is statically knowable and not overridden, member 0 is
  neither, and every dispatch resolves to function 7; function 7 with one block that
  returns.
\<close>

definition exampleModule :: SILModule where
  "exampleModule =
     \<lparr>isInSwiftModule = (\<lambda>classDecl. True),
      calleesAreStaticallyKnowable = (\<lambda>member. member = 1),
      isOverridden = (\<lambda>member. member \<noteq> 1),
      getTargetClassMethod = (\<lambda>classDecl member. Some 7),
      lookUpFunctionInWitnessTable = (\<lambda>conformance member. Some 7),
      stripAccessMarkers = (\<lambda>v. v)\<rparr>"

definition returnInst :: TermInst where
  "returnInst =
     \<lparr>asInstruction =
        \<lparr>instId = 100, getKind = OtherInstructionKind, instMayWriteToMemory = False,
         mayReadFromMemory = False, getAllOperands = [], asFullApplySite = None\<rparr>,
      getTermKind = OtherTermKind, isFunctionExiting = True, isProgramTerminating = False\<rparr>"

definition exampleFunction :: SILFunction where
  "exampleFunction =
     \<lparr>functionId = 7, numArguments = 0,
      getBlocks = [\<lparr>bodyInstructions = [], getTerminator = returnInst,
                    getSuccessorBlocks = [], getPredecessorBlocks = []\<rparr>],
      wasDeserializedCanonical = False\<rparr>"

definition witnessMethodCall :: FullApplySite where
  "witnessMethodCall =
     \<lparr>getCallee = WitnessMethodInst 0 0, getArguments = [],
      isCalleeKnownProgramTerminationPoint = False\<rparr>"

definition classMethodCall :: FullApplySite where
  "classMethodCall =
     \<lparr>getCallee = ClassMethodInst (Some 0) 1, getArguments = [],
      isCalleeKnownProgramTerminationPoint = False\<rparr>"

text \<open>
  C1, as stated, fails for a \<open>witness_method\<close> callee: the call below is classified as
  recursive although the callees of its member are not statically knowable and the member
  is overridden. The classifier asks neither question of a witness method.
\<close>

theorem isRecursiveCall_witness_method_counterexample:
  "getCallee witnessMethodCall = WitnessMethodInst 0 0
     \<and> isRecursiveCall exampleModule exampleFunction witnessMethodCall
     \<and> \<not> calleesAreStaticallyKnowable exampleModule 0
     \<and> isOverridden exampleModule 0"
  by (simp add: witnessMethodCall_def exampleModule_def exampleFunction_def isRecursiveCall_def)

text \<open>
  C1, amended. For a \<open>class_method\<close> callee the call is recursive exactly when the class
  (if known) is of the module being compiled, the callees of the member are statically
  knowable, the member is not overridden and the resolved method is the enclosing
  function. For a \<open>witness_method\<close> callee it is recursive exactly when the witness table
  resolves the member to the enclosing function. For the super and Objective-C method
  callees it is never recursive.
\<close>

theorem isRecursiveCall_dynamic_dispatch:
  "(getCallee applySite = ClassMethodInst classDecl member \<longrightarrow>
      isRecursiveCall module parentFunc applySite =
        ((\<forall>d. classDecl = Some d \<longrightarrow> isInSwiftModule module d)
         \<and> calleesAreStaticallyKnowable module member
         \<and> \<not> isOverridden module member
         \<and> getTargetClassMethod module classDecl member = Some (functionId parentFunc)))
   \<and> (getCallee applySite = WitnessMethodInst conformance member \<longrightarrow>
      isRecursiveCall module parentFunc applySite =
        (lookUpFunctionInWitnessTable module conformance member = Some (functionId parentFunc)))
   \<and> (getCallee applySite \<in> {SuperMethodInst, ObjCSuperMethodInst, ObjCMethodInst} \<longrightarrow>
      \<not> isRecursiveCall module parentFunc applySite)"
  by (auto simp: isRecursiveCall_def split: option.splits)

theorem isRecursiveCall_dynamic_dispatch_witness:
  "isRecursiveCall exampleModule exampleFunction classMethodCall
     \<and> isRecursiveCall exampleModule exampleFunction witnessMethodCall
     \<and> \<not> isRecursiveCall exampleModule exampleFunction
           (classMethodCall\<lparr>getCallee := ClassMethodInst (Some 0) 0\<rparr>)
     \<and> \<not> isRecursiveCall exampleModule exampleFunction
           (classMethodCall\<lparr>getCallee := SuperMethodInst\<rparr>)"
  using isRecursiveCall_dynamic_dispatch
          [of classMethodCall "Some 0" 1 exampleModule exampleFunction 0]
        isRecursiveCall_dynamic_dispatch
          [of witnessMethodCall None 0 exampleModule exampleFunction 0]
        isRecursiveCall_dynamic_dispatch
          [of "classMethodCall\<lparr>getCallee := ClassMethodInst (Some 0) 0\<rparr>" "Some 0" 0
              exampleModule exampleFunction 0]
        isRecursiveCall_dynamic_dispatch
          [of "classMethodCall\<lparr>getCallee := SuperMethodInst\<rparr>" None 0
              exampleModule exampleFunction 0]
  by (simp add: classMethodCall_def witnessMethodCall_def exampleModule_def exampleFunction_def)


section \<open>Properties of the invariants\<close>

lemma isBitSet_bit: "isBitSet invariants n = bit (bitMask invariants) n"
  by (simp add: isBitSet_def bit_iff_and_push_bit_not_eq_0)

lemma forwardingBits_high:
  "forwardingBits module function args bits = Inr bits' \<Longrightarrow> maxArgIndex + firstArgBit < n
     \<Longrightarrow> bit bits' n = bit bits n"
proof (induction args arbitrary: bits)
  case Nil
  then show ?case by simp
next
  case (Cons a args)
  obtain argIdx arg where a: "a = (argIdx, arg)" by (cases a)
  show ?case
  proof (cases "argIdx \<le> maxArgIndex \<and> stripAccessMarkers module arg = FunctionArgument argIdx")
    case True
    with Cons.prems(1) a
    have "forwardingBits module function args (bits OR push_bit (argIdx + firstArgBit) 1) = Inr bits'"
      by (simp add: incomingArg_def split: if_splits)
    from Cons.IH [OF this Cons.prems(2)] True Cons.prems(2) show ?thesis
      by (auto simp: bit_or_iff bit_push_bit_iff bit_1_iff bit_exp_iff)
  next
    case False
    with Cons.prems(1) a have "forwardingBits module function args bits = Inr bits'"
      by (auto simp: incomingArg_def split: if_splits)
    from Cons.IH [OF this Cons.prems(2)] show ?thesis .
  qed
qed

text \<open>
  A function with 17 arguments and a call of it that forwards only the last one, the
  argument at position 16.
\<close>

definition seventeenArguments :: SILFunction where
  "seventeenArguments = exampleFunction\<lparr>numArguments := 17\<rparr>"

definition forwardsLastArgument :: FullApplySite where
  "forwardsLastArgument =
     \<lparr>getCallee = FunctionRef 7,
      getArguments = replicate 16 (OtherValue 0) @ [FunctionArgument 16],
      isCalleeKnownProgramTerminationPoint = False\<rparr>"

lemma fromForwardingArguments_forwardsLastArgument:
  "fromForwardingArguments exampleModule seventeenArguments forwardsLastArgument
       = Inr (Invariants 0x20000)"
proof -
  have args: "enumerate 0 (replicate 16 (OtherValue 0) @ [FunctionArgument 16])
      = map (\<lambda>i. (i, OtherValue 0)) [0, 1, 2, 3, 4, 5, 6, 7, 8, 9, 10, 11, 12, 13, 14, 15]
          @ [(16, FunctionArgument 16)]"
    by (simp add: numeral_eq_Suc enumerate_append_eq)
  show ?thesis
    unfolding fromForwardingArguments_def forwardsLastArgument_def
    by (simp add: args seventeenArguments_def exampleFunction_def exampleModule_def
        incomingArg_def maxArgIndex_def firstArgBit_def)
qed

text \<open>
  C2, as stated, fails at position 16: the guard is \<open>argIdx \<le> maxArgIndex\<close> with
  \<open>maxArgIndex = 16\<close>, so position 16 is tracked (in bit 17). The call below forwards its
  argument at position 16, \<open>fromForwardingArguments\<close> sets the bit, and
  \<open>isArgumentInvariant\<close> answers true for position 16.
\<close>

theorem isArgumentInvariant_position_16_counterexample:
  "fromForwardingArguments exampleModule seventeenArguments forwardsLastArgument
       = Inr (Invariants 0x20000)
     \<and> isArgumentInvariant (Invariants 0x20000) 16"
  using fromForwardingArguments_forwardsLastArgument
  by (simp add: isArgumentInvariant_def isBitSet_def maxArgIndex_def firstArgBit_def)

text \<open>
  C2, amended. For every position above 16 (17 and up) and every \<open>Invariants\<close>,
  \<open>isArgumentInvariant\<close> is false, and the invariants that \<open>fromForwardingArguments\<close>
  builds do not have the bit of that position set.
\<close>

theorem isArgumentInvariant_beyond_cap:
  assumes "16 < argIdx"
  shows "\<not> isArgumentInvariant invariants argIdx
     \<and> (\<forall>forwarding.
           fromForwardingArguments module function recursiveApply = Inr forwarding
             \<longrightarrow> \<not> isBitSet forwarding (argIdx + firstArgBit))"
proof -
  have "\<not> isArgumentInvariant invariants argIdx"
    using assms by (simp add: isArgumentInvariant_def maxArgIndex_def)
  moreover have "\<not> isBitSet forwarding (argIdx + firstArgBit)"
    if "fromForwardingArguments module function recursiveApply = Inr forwarding" for forwarding
  proof -
    from that obtain bits
      where loop: "forwardingBits module function (enumerate 0 (getArguments recursiveApply)) 0
                     = Inr bits"
        and fwd: "forwarding = Invariants bits"
      by (auto simp: fromForwardingArguments_def split: sum.splits)
    from assms have "maxArgIndex + firstArgBit < argIdx + firstArgBit"
      by (simp add: maxArgIndex_def)
    from forwardingBits_high [OF loop this] fwd show ?thesis
      by (simp add: isBitSet_bit)
  qed
  ultimately show ?thesis by blast
qed

theorem isArgumentInvariant_beyond_cap_witness:
  "(16::nat) < 17
     \<and> \<not> isArgumentInvariant (Invariants 0x40000) 17
     \<and> \<not> isBitSet (Invariants 0x20000) (17 + firstArgBit)"
proof -
  have lt: "(16::nat) < 17" by simp
  have "fromForwardingArguments exampleModule seventeenArguments forwardsLastArgument
       = Inr (Invariants 0x20000)"
    by (rule fromForwardingArguments_forwardsLastArgument)
  with isArgumentInvariant_beyond_cap [OF lt, of "Invariants 0x40000" exampleModule
      seventeenArguments forwardsLastArgument] lt
  show ?thesis by simp
qed

section \<open>Properties of the use-def walk\<close>

text \<open>
  Two instructions that use each other's results: instruction 0 has the operands
  (result of instruction 1, argument 0), instruction 1 has the operand (result of
  instruction 0).
\<close>

definition cyclicInstructions :: "SILInstruction list" where
  "cyclicInstructions =
     [\<lparr>instId = 0, getKind = OtherInstructionKind, instMayWriteToMemory = False,
       mayReadFromMemory = False,
       getAllOperands = [InstructionResult 1 0, FunctionArgument 0], asFullApplySite = None\<rparr>,
      \<lparr>instId = 1, getKind = OtherInstructionKind, instMayWriteToMemory = False,
       mayReadFromMemory = False,
       getAllOperands = [InstructionResult 0 0], asFullApplySite = None\<rparr>]"

lemma isInvariantValue_cyclicInstructions:
  "isInvariantValue cyclicInstructions (Invariants 2) (InstructionResult 0 0) {}
     = (True, {InstructionNode 0, InstructionNode 1, FunctionArgumentNode 0})"
  by (simp add: cyclicInstructions_def isInvariantValue.simps findInstruction_def
      isMemoryInvariant_def isArgumentInvariant_def isBitSet_def maxArgIndex_def firstArgBit_def
      invariantMemoryBit_def insert_commute)

text \<open>
  C9. For every instruction table, every \<open>Invariants\<close>, every value and every visited set,
  the recursion of \<open>isInvariantValue\<close> is well-founded from that call (the call is in the
  domain on which the recursion ends), whatever cycles the operands form; and when the
  node of the value is already in the visited set, the call returns true and leaves the
  set as it is, without looking at the instruction or its operands.
\<close>

theorem isInvariantValue_terminates:
  "isInvariantValue_isInvariantOperands_dom (Inl (insts, invariants, v, visited))
     \<and> (getRepresentativeSILNodeInObject v \<in> visited
          \<longrightarrow> isInvariantValue insts invariants v visited = (True, visited))"
proof
  show "isInvariantValue_isInvariantOperands_dom (Inl (insts, invariants, v, visited))"
    using isInvariantValue_total by blast
  show "getRepresentativeSILNodeInObject v \<in> visited
          \<longrightarrow> isInvariantValue insts invariants v visited = (True, visited)"
    by (simp add: isInvariantValue.simps)
qed

theorem isInvariantValue_terminates_witness:
  "isInvariantValue_isInvariantOperands_dom
       (Inl (cyclicInstructions, Invariants 2, InstructionResult 0 0, {InstructionNode 0}))
     \<and> isInvariantValue cyclicInstructions (Invariants 2) (InstructionResult 0 0)
           {InstructionNode 0} = (True, {InstructionNode 0})
     \<and> isInvariantValue cyclicInstructions (Invariants 2) (InstructionResult 0 0) {}
           = (True, {InstructionNode 0, InstructionNode 1, FunctionArgumentNode 0})"
  using isInvariantValue_terminates
          [of cyclicInstructions "Invariants 2" "InstructionResult 0 0" "{InstructionNode 0}"]
        isInvariantValue_cyclicInstructions
  by simp

section \<open>Properties of the block summaries\<close>














definition assertCallInst :: "nat \<Rightarrow> SILInstruction" where
  "assertCallInst n =
     \<lparr>instId = n, getKind = OtherInstructionKind, instMayWriteToMemory = True,
      mayReadFromMemory = True, getAllOperands = [],
      asFullApplySite = Some \<lparr>getCallee = FunctionRef 9, getArguments = [],
                              isCalleeKnownProgramTerminationPoint = True\<rparr>\<rparr>"

definition branchInst :: "nat \<Rightarrow> TermInst" where
  "branchInst n =
     \<lparr>asInstruction =
        \<lparr>instId = n, getKind = OtherInstructionKind, instMayWriteToMemory = False,
         mayReadFromMemory = False, getAllOperands = [], asFullApplySite = None\<rparr>,
      getTermKind = OtherTermKind, isFunctionExiting = False, isProgramTerminating = False\<rparr>"

text \<open>
  A comparison of the function's argument 0, and a conditional branch on its result.
\<close>

definition compareInst :: SILInstruction where
  "compareInst =
     \<lparr>instId = 0, getKind = OtherInstructionKind, instMayWriteToMemory = False,
      mayReadFromMemory = False, getAllOperands = [FunctionArgument 0],
      asFullApplySite = None\<rparr>"

definition condBranchInst :: TermInst where
  "condBranchInst =
     \<lparr>asInstruction =
        \<lparr>instId = 1, getKind = OtherInstructionKind, instMayWriteToMemory = False,
         mayReadFromMemory = False, getAllOperands = [InstructionResult 0 0],
         asFullApplySite = None\<rparr>,
      getTermKind = CondBranchInst, isFunctionExiting = False, isProgramTerminating = False\<rparr>"






lemmas invariants_defs =
  noInvariants_def withInvariantMemory_def isMemoryInvariant_def isArgumentInvariant_def
  isBitSet_def invariantMemoryBit_def firstArgBit_def maxArgIndex_def











section \<open>Properties of the backward propagation\<close>

lemma visitPredecessor_cases:
  assumes "visitPredecessor pred (blockInfos, workList) = Inr (blockInfos', workList')"
  obtains
    (skip) "pred < length blockInfos"
      "reachesReturn (blockInfos ! pred) \<or> recursiveCall (blockInfos ! pred) \<noteq> None"
      "blockInfos' = blockInfos" "workList' = workList"
  | (wait) "pred < length blockInfos"
      "\<not> reachesReturn (blockInfos ! pred)" "recursiveCall (blockInfos ! pred) = None"
      "hasInvariantCondition (blockInfos ! pred)"
      "1 < numSuccsNotReachingReturn (blockInfos ! pred)"
      "blockInfos' = blockInfos[pred := (blockInfos ! pred)
         \<lparr>numSuccsNotReachingReturn := numSuccsNotReachingReturn (blockInfos ! pred) - 1\<rparr>]"
      "workList' = workList"
  | (push) "pred < length blockInfos"
      "\<not> reachesReturn (blockInfos ! pred)" "recursiveCall (blockInfos ! pred) = None"
      "0 < numSuccsNotReachingReturn (blockInfos ! pred)"
      "hasInvariantCondition (blockInfos ! pred)
         \<longrightarrow> numSuccsNotReachingReturn (blockInfos ! pred) = 1"
      "blockInfos' = blockInfos[pred := (blockInfos ! pred)
         \<lparr>numSuccsNotReachingReturn := numSuccsNotReachingReturn (blockInfos ! pred) - 1,
          reachesReturn := True\<rparr>]"
      "workList' = pred # workList"
proof -
  from assms have lt: "pred < length blockInfos"
    by (auto simp: visitPredecessor_def info_def split: if_splits)
  let ?old = "blockInfos ! pred"
  let ?dec = "?old\<lparr>numSuccsNotReachingReturn := numSuccsNotReachingReturn ?old - 1\<rparr>"
  have "((reachesReturn ?old \<or> recursiveCall ?old \<noteq> None)
          \<and> blockInfos' = blockInfos \<and> workList' = workList)
      \<or> (\<not> reachesReturn ?old \<and> recursiveCall ?old = None \<and> hasInvariantCondition ?old
           \<and> 1 < numSuccsNotReachingReturn ?old
           \<and> blockInfos' = blockInfos[pred := ?dec] \<and> workList' = workList)
      \<or> (\<not> reachesReturn ?old \<and> recursiveCall ?old = None
           \<and> 0 < numSuccsNotReachingReturn ?old
           \<and> (hasInvariantCondition ?old \<longrightarrow> numSuccsNotReachingReturn ?old = 1)
           \<and> blockInfos' = blockInfos[pred := ?dec\<lparr>reachesReturn := True\<rparr>]
           \<and> workList' = pred # workList)"
    using assms lt unfolding visitPredecessor_def info_def Let_def
    by (simp split: if_splits) linarith
  with lt show thesis
    using skip wait push by blast
qed


text \<open>
  One visit of a predecessor \<open>pred\<close> that has no recursive call and has not reached a
  return yet: the counter goes down by one; with an invariant condition the flag is set
  exactly when the counter has come down to 0 (and the block is pushed only then);
  without an invariant condition the flag is set, and the block is pushed, at this very
  visit.
\<close>

lemma visitPredecessor_visit:
  assumes "visitPredecessor pred (blockInfos, workList) = Inr (blockInfos', workList')"
    and "recursiveCall (blockInfos ! pred) = None"
    and "\<not> reachesReturn (blockInfos ! pred)"
  shows "numSuccsNotReachingReturn (blockInfos' ! pred)
           = numSuccsNotReachingReturn (blockInfos ! pred) - 1
       \<and> 0 < numSuccsNotReachingReturn (blockInfos ! pred)
       \<and> (hasInvariantCondition (blockInfos ! pred) \<longrightarrow>
             reachesReturn (blockInfos' ! pred)
               = (numSuccsNotReachingReturn (blockInfos' ! pred) = 0))
       \<and> (\<not> hasInvariantCondition (blockInfos ! pred) \<longrightarrow> reachesReturn (blockInfos' ! pred))
       \<and> workList' = (if reachesReturn (blockInfos' ! pred) then pred # workList else workList)"
  using assms(1)
proof (cases rule: visitPredecessor_cases)
  case skip
  with assms(2,3) show ?thesis by simp
next
  case wait
  then show ?thesis by simp
next
  case push
  then show ?thesis by auto
qed

text \<open>
  The states of the backward propagation at the head of its work-list loop: the state
  after the first loop of \<open>isEntryReachableFromReturn\<close>, and the state after each
  iteration of the second.
\<close>

inductive propagationState ::
  "SILModule \<Rightarrow> SILFunction \<Rightarrow> Invariants \<Rightarrow> BlockInfo list \<times> nat list \<Rightarrow> bool"
  for m :: SILModule and f :: SILFunction and invariants :: Invariants
where
  initial:
    "initBlockInfos m f invariants (getBlocks f) ([], []) = Inr state
       \<Longrightarrow> propagationState m f invariants state"
| iteration:
    "propagationState m f invariants (blockInfos, block # workList)
       \<Longrightarrow> getBlock f block = Inr popped
       \<Longrightarrow> visitPredecessors (getPredecessorBlocks popped) (blockInfos, workList) = Inr state'
       \<Longrightarrow> propagationState m f invariants state'"

lemma propagateReachesReturn_state:
  "propagationState module function invariants state
     \<Longrightarrow> propagateReachesReturn function state = Inr final
     \<Longrightarrow> propagationState module function invariants (final, [])"
proof (induction "function" state arbitrary: final rule: propagateReachesReturn.induct)
  case (1 f blockInfos)
  then show ?case by simp
next
  case (2 f blockInfos block workList)
  from "2.prems"(2) obtain popped state'
    where p: "getBlock f block = Inr popped"
      and v: "visitPredecessors (getPredecessorBlocks popped) (blockInfos, workList) = Inr state'"
      and r: "propagateReachesReturn f state' = Inr final"
    by (auto split: sum.splits)
  from "2.prems"(1) p v have "propagationState module f invariants state'"
    by (rule propagationState.iteration)
  from "2.IH" [OF p v this r] show ?case .
qed

text \<open>
  What holds of every such state: there is one summary per block; a block with a
  recursive call has not reached a return and its counter is the number of its
  successors; every block in the work list has reached a return.
\<close>

definition recursiveCallsBlock :: "SILFunction \<Rightarrow> BlockInfo list \<times> nat list \<Rightarrow> bool" where
  "recursiveCallsBlock function state =
     (case state of (blockInfos, workList) \<Rightarrow>
        length blockInfos \<le> length (getBlocks function)
        \<and> (\<forall>block < length blockInfos.
              recursiveCall (blockInfos ! block) \<noteq> None \<longrightarrow>
                \<not> reachesReturn (blockInfos ! block)
                \<and> numSuccsNotReachingReturn (blockInfos ! block)
                    = length (getSuccessorBlocks (getBlocks function ! block)))
        \<and> (\<forall>block \<in> set workList.
              block < length blockInfos \<and> reachesReturn (blockInfos ! block)))"

lemma scanInstructions_result:
  "scanInstructions module function invariants insts blockInfo = Inr (returned, blockInfo')
     \<Longrightarrow> blockInfo' = blockInfo
         \<or> blockInfo' = blockInfo\<lparr>reachesReturn := True\<rparr>
         \<or> (\<exists>inst. blockInfo' = blockInfo\<lparr>recursiveCall := Some inst\<rparr> \<and> returned)"
proof (induction insts)
  case Nil
  then show ?case by simp
next
  case (Cons inst insts)
  show ?case
  proof (cases "visitInstruction module function invariants inst blockInfo")
    case (Inl e)
    with Cons.prems show ?thesis by simp
  next
    case (Inr r)
    show ?thesis
    proof (cases r)
      case None
      with Inr Cons show ?thesis by simp
    next
      case (Some b)
      with Inr Cons.prems have b: "blockInfo' = b" "returned" by simp_all
      from Inr Some have "b = blockInfo \<or> b = blockInfo\<lparr>reachesReturn := True\<rparr>
          \<or> b = blockInfo\<lparr>recursiveCall := Some inst\<rparr>"
        by (auto simp: visitInstruction_def Let_def split: option.splits if_splits sum.splits)
      with b show ?thesis by blast
    qed
  qed
qed

lemma BlockInfo_recursiveCall:
  assumes "BlockInfo module function block invariants = Inr blockInfo"
    and "recursiveCall blockInfo \<noteq> None"
  shows "\<not> reachesReturn blockInfo
       \<and> numSuccsNotReachingReturn blockInfo = length (getSuccessorBlocks block)"
proof -
  from assms(1) obtain cond returned scanned
    where s: "scanInstructions module function invariants (blockInstructions block)
               \<lparr>recursiveCall = None,
                numSuccsNotReachingReturn = length (getSuccessorBlocks block),
                hasInvariantCondition = cond, reachesReturn = False,
                reachableFromEntry = False\<rparr> = Inr (returned, scanned)"
      and b: "blockInfo = scanned \<or> (\<not> returned \<and> blockInfo = scanned\<lparr>reachesReturn := True\<rparr>)"
    by (auto simp: BlockInfo_def split: sum.splits if_splits)
  from scanInstructions_result [OF s] b assms(2) show ?thesis by auto
qed

lemma initBlockInfos_recursiveCallsBlock:
  assumes "initBlockInfos module function invariants rest (blockInfos, workList) = Inr state"
    and "getBlocks function = done @ rest"
    and "length blockInfos = length done"
    and "recursiveCallsBlock function (blockInfos, workList)"
  shows "recursiveCallsBlock function state"
  using assms
proof (induction rest arbitrary: blockInfos workList "done")
  case Nil
  then show ?case by simp
next
  case (Cons block rest)
  from Cons.prems(1) obtain blockInfo
    where b: "BlockInfo module function block invariants = Inr blockInfo"
      and r: "initBlockInfos module function invariants rest
                (blockInfos @ [blockInfo],
                 if reachesReturn blockInfo then length blockInfos # workList else workList)
              = Inr state"
    by (auto split: sum.splits)
  have blk: "getBlocks function ! length blockInfos = block"
    using Cons.prems(2,3) by simp
  have "recursiveCallsBlock function
          (blockInfos @ [blockInfo],
           if reachesReturn blockInfo then length blockInfos # workList else workList)"
    using Cons.prems(2,3,4) BlockInfo_recursiveCall [OF b] blk
    by (auto simp: recursiveCallsBlock_def nth_append less_Suc_eq)
  from Cons.IH [OF r _ _ this, of "done @ [block]"] Cons.prems(2,3) show ?case by simp
qed

lemma visitPredecessor_recursiveCallsBlock:
  assumes "visitPredecessor pred (blockInfos, workList) = Inr state'"
    and "recursiveCallsBlock function (blockInfos, workList)"
  shows "recursiveCallsBlock function state'"
proof -
  obtain blockInfos' workList' where st: "state' = (blockInfos', workList')" by (cases state')
  from assms(1) [unfolded st] show ?thesis
  proof (cases rule: visitPredecessor_cases)
    case skip
    with assms(2) st show ?thesis by simp
  next
    case wait
    with assms(2) st show ?thesis
      by (auto simp: recursiveCallsBlock_def nth_list_update)
  next
    case push
    with assms(2) st show ?thesis
      by (auto simp: recursiveCallsBlock_def nth_list_update)
  qed
qed

lemma visitPredecessors_recursiveCallsBlock:
  "visitPredecessors preds state = Inr state' \<Longrightarrow> recursiveCallsBlock function state
     \<Longrightarrow> recursiveCallsBlock function state'"
proof (induction preds arbitrary: state)
  case Nil
  then show ?case by simp
next
  case (Cons pred preds)
  from Cons.prems(1) obtain mid
    where step: "visitPredecessor pred state = Inr mid"
      and rest: "visitPredecessors preds mid = Inr state'"
    by (auto split: sum.splits)
  from step Cons.prems(2) have "recursiveCallsBlock function mid"
    by (cases state) (auto dest: visitPredecessor_recursiveCallsBlock)
  from Cons.IH [OF rest this] show ?case .
qed

lemma propagationState_recursiveCallsBlock:
  "propagationState module function invariants state \<Longrightarrow> recursiveCallsBlock function state"
proof (induction rule: propagationState.induct)
  case (initial state)
  have "recursiveCallsBlock function ([], [])" by (simp add: recursiveCallsBlock_def)
  from initBlockInfos_recursiveCallsBlock [OF initial, of "[]", OF _ _ this]
  show ?case by simp
next
  case (iteration blockInfos block workList popped state')
  from iteration.IH have "recursiveCallsBlock function (blockInfos, workList)"
    by (simp add: recursiveCallsBlock_def)
  from visitPredecessors_recursiveCallsBlock [OF iteration.hyps(3) this] show ?case .
qed


lemma isEntryReachableFromReturn_state:
  assumes "isEntryReachableFromReturn module function invariants = Inr (entryReaches, blockInfos)"
  shows "propagationState module function invariants (blockInfos, [])"
proof -
  from assms obtain state
    where i: "initBlockInfos module function invariants (getBlocks function) ([], []) = Inr state"
      and p: "propagateReachesReturn function state = Inr blockInfos"
    by (auto simp: isEntryReachableFromReturn_def split: sum.splits)
  from i have "propagationState module function invariants state"
    by (rule propagationState.initial)
  from propagateReachesReturn_state [OF this p] show ?thesis .
qed

lemma isEntryReachableFromReturn_recursiveCall_blocks:
  assumes "isEntryReachableFromReturn module function invariants = Inr (entryReaches, blockInfos)"
    and "block < length blockInfos"
    and "recursiveCall (blockInfos ! block) \<noteq> None"
  shows "\<not> reachesReturn (blockInfos ! block)
       \<and> numSuccsNotReachingReturn (blockInfos ! block)
           = length (getSuccessorBlocks (getBlocks function ! block))"
  using propagationState_recursiveCallsBlock [OF isEntryReachableFromReturn_state [OF assms(1)]]
    assms(2,3)
  by (auto simp: recursiveCallsBlock_def)

text \<open>
  C5. In every state of the backward propagation (and so in the summaries that
  \<open>isEntryReachableFromReturn\<close> leaves behind, which are such a state), a
  block whose summary has a recursive call has \<open>reachesReturn\<close> false, has its counter at
  the number of its successors, where the constructor put it, and is not in the work
  list, so that none of its predecessors is ever visited on its account.
\<close>

theorem recursiveCall_blocks_propagation:
  assumes "propagationState module function invariants (blockInfos, workList)"
    and "block < length blockInfos"
    and "recursiveCall (blockInfos ! block) \<noteq> None"
  shows "\<not> reachesReturn (blockInfos ! block)
       \<and> numSuccsNotReachingReturn (blockInfos ! block)
           = length (getSuccessorBlocks (getBlocks function ! block))
       \<and> block \<notin> set workList"
  using propagationState_recursiveCallsBlock [OF assms(1)] assms(2,3)
  by (auto simp: recursiveCallsBlock_def)

text \<open>
  The function \<open>f(x) { if x > 0 { f(x) } }\<close> of the source's comment, as function 7 with
  one argument: block 0 compares the argument and branches to blocks 1 and 2, block 1
  calls the function with the argument forwarded and goes on to block 2, block 2 returns.
\<close>

definition forwardingCallInst :: SILInstruction where
  "forwardingCallInst =
     \<lparr>instId = 2, getKind = OtherInstructionKind, instMayWriteToMemory = True,
      mayReadFromMemory = True, getAllOperands = [FunctionArgument 0],
      asFullApplySite = Some \<lparr>getCallee = FunctionRef 7, getArguments = [FunctionArgument 0],
                              isCalleeKnownProgramTerminationPoint = False\<rparr>\<rparr>"

definition guardedRecursion :: SILFunction where
  "guardedRecursion =
     \<lparr>functionId = 7, numArguments = 1,
      getBlocks =
        [\<lparr>bodyInstructions = [compareInst], getTerminator = condBranchInst,
          getSuccessorBlocks = [1, 2], getPredecessorBlocks = []\<rparr>,
         \<lparr>bodyInstructions = [forwardingCallInst], getTerminator = branchInst 3,
          getSuccessorBlocks = [2], getPredecessorBlocks = [0]\<rparr>,
         \<lparr>bodyInstructions = [], getTerminator = returnInst,
          getSuccessorBlocks = [], getPredecessorBlocks = [0, 1]\<rparr>],
      wasDeserializedCanonical = False\<rparr>"

text \<open>
  Its summaries as the constructor builds them; only the invariance of the condition of
  block 0 depends on the invariants.
\<close>

definition guardedSummaries :: "bool \<Rightarrow> BlockInfo list" where
  "guardedSummaries invariantCondition =
     [\<lparr>recursiveCall = None, numSuccsNotReachingReturn = 2,
       hasInvariantCondition = invariantCondition, reachesReturn = False,
       reachableFromEntry = False\<rparr>,
      \<lparr>recursiveCall = Some forwardingCallInst, numSuccsNotReachingReturn = 1,
       hasInvariantCondition = False, reachesReturn = False, reachableFromEntry = False\<rparr>,
      \<lparr>recursiveCall = None, numSuccsNotReachingReturn = 0,
       hasInvariantCondition = False, reachesReturn = True, reachableFromEntry = False\<rparr>]"

lemmas guardedRecursion_defs =
  guardedRecursion_def compareInst_def condBranchInst_def forwardingCallInst_def
  branchInst_def returnInst_def exampleModule_def

lemma guardedRecursion_condition:
  "isInvariant (functionInstructions guardedRecursion) invariants condBranchInst
     = Inr (isArgumentInvariant invariants 0)"
  by (simp add: guardedRecursion_defs isInvariant_def functionInstructions_def
      blockInstructions_def isInvariantValue.simps findInstruction_def Let_def)

lemma guardedRecursion_forwards:
  "hasInvariantArguments exampleModule guardedRecursion invariants
     \<lparr>getCallee = FunctionRef 7, getArguments = [FunctionArgument 0],
      isCalleeKnownProgramTerminationPoint = False\<rparr> = Inr True"
  by (simp add: hasInvariantArguments_def guardedRecursion_defs incomingArg_def)

lemma guardedRecursion_initBlockInfos:
  "initBlockInfos exampleModule guardedRecursion invariants (getBlocks guardedRecursion) ([], [])
     = Inr (guardedSummaries (isArgumentInvariant invariants 0), [2])"
proof -
  have fid: "functionId guardedRecursion = 7" by (simp add: guardedRecursion_def)
  have b0: "BlockInfo exampleModule guardedRecursion
              \<lparr>bodyInstructions = [compareInst], getTerminator = condBranchInst,
               getSuccessorBlocks = [1, 2], getPredecessorBlocks = []\<rparr> invariants
            = Inr (guardedSummaries (isArgumentInvariant invariants 0) ! 0)"
    unfolding BlockInfo_def
    by (simp add: guardedRecursion_condition)
       (simp add: blockInstructions_def visitInstruction_def mayWriteToMemory_def
          compareInst_def condBranchInst_def guardedSummaries_def)
  have b1: "BlockInfo exampleModule guardedRecursion
              \<lparr>bodyInstructions = [forwardingCallInst], getTerminator = branchInst 3,
               getSuccessorBlocks = [2], getPredecessorBlocks = [0]\<rparr> invariants
            = Inr (guardedSummaries (isArgumentInvariant invariants 0) ! 1)"
    unfolding BlockInfo_def
    by (simp add: isInvariant_def branchInst_def)
       (simp add: blockInstructions_def visitInstruction_def forwardingCallInst_def
          isRecursiveCall_def guardedRecursion_forwards guardedSummaries_def fid)
  have b2: "BlockInfo exampleModule guardedRecursion
              \<lparr>bodyInstructions = [], getTerminator = returnInst,
               getSuccessorBlocks = [], getPredecessorBlocks = [0, 1]\<rparr> invariants
            = Inr (guardedSummaries (isArgumentInvariant invariants 0) ! 2)"
    unfolding BlockInfo_def
    by (simp add: isInvariant_def returnInst_def)
       (simp add: blockInstructions_def visitInstruction_def mayWriteToMemory_def
          guardedSummaries_def returnInst_def)
  show ?thesis
    using b0 b1 b2
    by (simp add: guardedRecursion_def) (simp add: guardedSummaries_def)
qed


text \<open>The state after the first iteration of the propagation, without invariants.\<close>

definition guardedAfterReturn :: "BlockInfo list" where
  "guardedAfterReturn =
     (guardedSummaries False)
       [0 := \<lparr>recursiveCall = None, numSuccsNotReachingReturn = 1,
              hasInvariantCondition = False, reachesReturn = True,
              reachableFromEntry = False\<rparr>]"

lemma guardedRecursion_noInvariants: "\<not> isArgumentInvariant noInvariants 0"
  by (simp add: invariants_defs)

lemma guardedRecursion_first_iteration:
  "visitPredecessors [0, 1] (guardedSummaries False, []) = Inr (guardedAfterReturn, [0])"
  by (simp add: visitPredecessor_def info_def guardedSummaries_def guardedAfterReturn_def)

lemma guardedRecursion_propagationState:
  "propagationState exampleModule guardedRecursion noInvariants (guardedAfterReturn, [0])"
proof -
  let ?popped = "\<lparr>bodyInstructions = [], getTerminator = returnInst,
                  getSuccessorBlocks = [], getPredecessorBlocks = [0, 1]\<rparr>"
  have st: "propagationState exampleModule guardedRecursion noInvariants
              (guardedSummaries False, [2])"
    using guardedRecursion_initBlockInfos [of noInvariants] guardedRecursion_noInvariants
    by (intro propagationState.initial) simp
  have gb: "getBlock guardedRecursion 2 = Inr ?popped"
    by (simp add: getBlock_def guardedRecursion_def)
  have v: "visitPredecessors (getPredecessorBlocks ?popped) (guardedSummaries False, [])
             = Inr (guardedAfterReturn, [0])"
    by (simp only: SILBasicBlock.select_convs guardedRecursion_first_iteration)
  show ?thesis by (rule propagationState.iteration [OF st gb v])
qed

theorem recursiveCall_blocks_propagation_witness:
  "propagationState exampleModule guardedRecursion noInvariants (guardedAfterReturn, [0])
     \<and> recursiveCall (guardedAfterReturn ! 1) = Some forwardingCallInst
     \<and> \<not> reachesReturn (guardedAfterReturn ! 1)
     \<and> numSuccsNotReachingReturn (guardedAfterReturn ! 1) = 1
     \<and> getSuccessorBlocks (getBlocks guardedRecursion ! 1) = [2]
     \<and> 1 \<notin> set [0::nat]"
proof -
  have r: "recursiveCall (guardedAfterReturn ! 1) = Some forwardingCallInst"
    and l: "1 < length guardedAfterReturn"
    and s: "getSuccessorBlocks (getBlocks guardedRecursion ! 1) = [2]"
    by (simp_all add: guardedAfterReturn_def guardedSummaries_def guardedRecursion_def)
  from r have "recursiveCall (guardedAfterReturn ! 1) \<noteq> None" by simp
  from recursiveCall_blocks_propagation [OF guardedRecursion_propagationState l this] r s
    guardedRecursion_propagationState
  show ?thesis by simp
qed






























section \<open>Properties of the driver\<close>

text \<open>
  In the words of the specification: the attempts a list of candidates stands for, each
  candidate plain and then with memory invariance; whether the attempt with some
  invariants ends the run (it reports, or it fails); and a list cut after its first
  element with a property.
\<close>

definition candidateAttempts :: "Invariants list \<Rightarrow> Invariants list" where
  "candidateAttempts invariantsToTry =
     concat (map (\<lambda>invariants. [invariants, withInvariantMemory invariants]) invariantsToTry)"

definition endsRun :: "SILModule \<Rightarrow> SILFunction \<Rightarrow> Invariants \<Rightarrow> bool" where
  "endsRun module function invariants =
     (case analyzeAndDiagnose module function invariants of
        Inl e \<Rightarrow> True
      | Inr (warnings, found) \<Rightarrow> found)"

fun upToFirst :: "('a \<Rightarrow> bool) \<Rightarrow> 'a list \<Rightarrow> 'a list" where
  "upToFirst P [] = []"
| "upToFirst P (x # xs) = (if P x then [x] else x # upToFirst P xs)"

lemma length_upToFirst: "length (upToFirst P xs) \<le> length xs"
  by (induction xs) simp_all

lemma attempt_attempts:
  "attempts (fst (attempt module function invariants passRun))
     = attempts passRun @ [invariants]"
  by (simp add: attempt_def split: sum.splits prod.splits)

lemma attempt_stops:
  "snd (attempt module function invariants passRun) = endsRun module function invariants"
  by (simp add: attempt_def endsRun_def split: sum.splits prod.splits)

lemma tryInvariants_attempts:
  "attempts (tryInvariants module function invariantsToTry passRun)
     = attempts passRun
         @ upToFirst (endsRun module function) (candidateAttempts invariantsToTry)"
proof (induction invariantsToTry arbitrary: passRun)
  case Nil
  then show ?case by (simp add: candidateAttempts_def)
next
  case (Cons invariants rest)
  obtain passRun1 stop1
    where a1: "attempt module function invariants passRun = (passRun1, stop1)"
    by (cases "attempt module function invariants passRun")
  obtain passRun2 stop2
    where a2: "attempt module function (withInvariantMemory invariants) passRun1
                 = (passRun2, stop2)"
    by (cases "attempt module function (withInvariantMemory invariants) passRun1")
  from a1 attempt_attempts [of module "function" invariants passRun]
       attempt_stops [of module "function" invariants passRun]
  have p1: "attempts passRun1 = attempts passRun @ [invariants]"
    and s1: "stop1 = endsRun module function invariants"
    by simp_all
  from a2 attempt_attempts [of module "function" "withInvariantMemory invariants" passRun1]
       attempt_stops [of module "function" "withInvariantMemory invariants" passRun1]
  have p2: "attempts passRun2 = attempts passRun1 @ [withInvariantMemory invariants]"
    and s2: "stop2 = endsRun module function (withInvariantMemory invariants)"
    by simp_all
  have c: "candidateAttempts (invariants # rest)
             = invariants # withInvariantMemory invariants # candidateAttempts rest"
    by (simp add: candidateAttempts_def)
  show ?case
    using Cons.IH [of passRun2] a1 a2 p1 p2 s1 s2
    by (simp add: c)
qed

lemma setVectorInsert_props:
  "distinct invariantsToTry \<Longrightarrow> distinct (setVectorInsert invariants invariantsToTry)"
  "set (setVectorInsert invariants invariantsToTry) = insert invariants (set invariantsToTry)"
  "length (setVectorInsert invariants invariantsToTry) \<le> Suc (length invariantsToTry)"
  by (auto simp: setVectorInsert_def)

lemma collectFromInstructions_props:
  assumes "collectFromInstructions module function insts (invariantsToTry, found)
             = Inr (collected, found')"
    and "distinct invariantsToTry" and "noInvariants \<in> set invariantsToTry"
    and "length invariantsToTry < 4"
  shows "distinct collected \<and> noInvariants \<in> set collected \<and> length collected \<le> 4"
  using assms
proof (induction insts arbitrary: invariantsToTry found)
  case Nil
  then show ?case by simp
next
  case (Cons inst insts)
  show ?case
  proof (cases "\<exists>applySite. asFullApplySite inst = Some applySite
                  \<and> isRecursiveCall module function applySite")
    case False
    with Cons.prems(1)
    have "collectFromInstructions module function insts (invariantsToTry, found)
            = Inr (collected, found')"
      by (auto split: option.splits)
    from Cons.IH [OF this Cons.prems(2-4)] show ?thesis .
  next
    case True
    then obtain applySite
      where a: "asFullApplySite inst = Some applySite"
        and r: "isRecursiveCall module function applySite"
      by blast
    from Cons.prems(1) a r obtain invariants
      where f: "fromForwardingArguments module function applySite = Inr invariants"
      by (auto split: sum.splits)
    let ?inserted = "setVectorInsert invariants invariantsToTry"
    have d: "distinct ?inserted" and n: "noInvariants \<in> set ?inserted"
      and l: "length ?inserted \<le> 4"
      using Cons.prems(2-4) setVectorInsert_props [where invariantsToTry = invariantsToTry and invariants = invariants]
      by auto
    show ?thesis
    proof (cases "4 \<le> length ?inserted")
      case True
      with Cons.prems(1) a r f have "collected = ?inserted" by (simp add: Let_def)
      with d n l show ?thesis by simp
    next
      case False
      with Cons.prems(1) a r f
      have "collectFromInstructions module function insts (?inserted, True)
              = Inr (collected, found')"
        by (simp add: Let_def)
      from Cons.IH [OF this d n] False show ?thesis by simp
    qed
  qed
qed

lemma collectInvariantsToTry_props:
  assumes "collectInvariantsToTry module function = Inr (invariantsToTry, found)"
  shows "distinct invariantsToTry \<and> noInvariants \<in> set invariantsToTry
           \<and> length invariantsToTry \<le> 4"
  using assms unfolding collectInvariantsToTry_def
  by (rule collectFromInstructions_props) (simp_all add: setVectorInsert_def)

lemma length_candidateAttempts:
  "length (candidateAttempts invariantsToTry) = 2 * length invariantsToTry"
  by (induction invariantsToTry) (simp_all add: candidateAttempts_def)

lemma run_attempts:
  "attempts (run module function) =
     (if wasDeserializedCanonical function then []
      else case collectInvariantsToTry module function of
             Inl e \<Rightarrow> []
           | Inr (invariantsToTry, found) \<Rightarrow>
               if found
               then upToFirst (endsRun module function) (candidateAttempts invariantsToTry)
               else [])"
  by (simp add: run_def Let_def tryInvariants_attempts split: sum.splits prod.splits)


text \<open>
  C7. A run of the pass calls \<open>analyzeAndDiagnose\<close> at most 8 times. The candidates
  that \<open>collectInvariantsToTry\<close> collects are distinct, \<open>noInvariants\<close> is among them and
  there are at most 4 of them; when the pass goes on to try them, the calls are exactly the
  list "each candidate, then the same with invariant memory", cut after the first call
  that ends the run.
\<close>

theorem run_attempts_bounded:
  "length (attempts (run module function)) \<le> 8
     \<and> (\<forall>invariantsToTry found.
           collectInvariantsToTry module function = Inr (invariantsToTry, found)
           \<longrightarrow> distinct invariantsToTry
               \<and> noInvariants \<in> set invariantsToTry
               \<and> length invariantsToTry \<le> 4
               \<and> (\<not> wasDeserializedCanonical function \<and> found
                    \<longrightarrow> attempts (run module function)
                          = upToFirst (endsRun module function)
                              (candidateAttempts invariantsToTry)))"
proof
  show "length (attempts (run module function)) \<le> 8"
  proof (cases "collectInvariantsToTry module function")
    case (Inl e)
    then show ?thesis by (simp add: run_attempts)
  next
    case (Inr r)
    obtain invariantsToTry found where r: "r = (invariantsToTry, found)" by (cases r)
    from collectInvariantsToTry_props [OF Inr [unfolded r]]
    have "length invariantsToTry \<le> 4" by simp
    then have "length (candidateAttempts invariantsToTry) \<le> 8"
      by (simp add: length_candidateAttempts)
    with length_upToFirst [of "endsRun module function" "candidateAttempts invariantsToTry"]
    have "length (upToFirst (endsRun module function) (candidateAttempts invariantsToTry)) \<le> 8"
      by simp
    with Inr r show ?thesis by (simp add: run_attempts)
  qed
  show "\<forall>invariantsToTry found.
           collectInvariantsToTry module function = Inr (invariantsToTry, found)
           \<longrightarrow> distinct invariantsToTry
               \<and> noInvariants \<in> set invariantsToTry
               \<and> length invariantsToTry \<le> 4
               \<and> (\<not> wasDeserializedCanonical function \<and> found
                    \<longrightarrow> attempts (run module function)
                          = upToFirst (endsRun module function)
                              (candidateAttempts invariantsToTry))"
    using collectInvariantsToTry_props [of module "function"]
    by (auto simp: run_attempts)
qed

text \<open>The run of the pass on \<open>guardedRecursion\<close>.\<close>

lemma guardedRecursion_collect:
  "collectInvariantsToTry exampleModule guardedRecursion
     = Inr ([noInvariants, Invariants 2], True)"
proof -
  have i: "functionInstructions guardedRecursion
         = [compareInst, asInstruction condBranchInst, forwardingCallInst,
            asInstruction (branchInst 3), asInstruction returnInst]"
    by (simp add: functionInstructions_def blockInstructions_def guardedRecursion_def)
  have fid: "functionId guardedRecursion = 7" "numArguments guardedRecursion = 1"
    by (simp_all add: guardedRecursion_def)
  have f: "fromForwardingArguments exampleModule guardedRecursion
             \<lparr>getCallee = FunctionRef 7, getArguments = [FunctionArgument 0],
              isCalleeKnownProgramTerminationPoint = False\<rparr> = Inr (Invariants 2)"
    by (simp add: fromForwardingArguments_def incomingArg_def fid maxArgIndex_def firstArgBit_def
        exampleModule_def)
  show ?thesis
    unfolding collectInvariantsToTry_def i
    by (simp add: compareInst_def condBranchInst_def forwardingCallInst_def branchInst_def
        returnInst_def isRecursiveCall_def fid f setVectorInsert_def noInvariants_def)
qed

lemma guardedRecursion_blocks:
  "getBlock guardedRecursion 0
     = Inr \<lparr>bodyInstructions = [compareInst], getTerminator = condBranchInst,
            getSuccessorBlocks = [1, 2], getPredecessorBlocks = []\<rparr>"
  "getBlock guardedRecursion 1
     = Inr \<lparr>bodyInstructions = [forwardingCallInst], getTerminator = branchInst 3,
            getSuccessorBlocks = [2], getPredecessorBlocks = [0]\<rparr>"
  "getBlock guardedRecursion 2
     = Inr \<lparr>bodyInstructions = [], getTerminator = returnInst,
            getSuccessorBlocks = [], getPredecessorBlocks = [0, 1]\<rparr>"
  by (simp_all add: getBlock_def guardedRecursion_def)

lemma guardedRecursion_returns:
  "\<not> isArgumentInvariant invariants 0
     \<Longrightarrow> analyzeAndDiagnose exampleModule guardedRecursion invariants = Inr ([], False)"
proof -
  assume "\<not> isArgumentInvariant invariants 0"
  with guardedRecursion_initBlockInfos [of invariants]
  have i: "initBlockInfos exampleModule guardedRecursion invariants
             (getBlocks guardedRecursion) ([], []) = Inr (guardedSummaries False, [2])"
    by simp
  have "propagateReachesReturn guardedRecursion (guardedSummaries False, [2])
          = propagateReachesReturn guardedRecursion (guardedAfterReturn, [0])"
    by (simp only: propagateReachesReturn.simps guardedRecursion_blocks sum.case
        SILBasicBlock.select_convs guardedRecursion_first_iteration)
  then have p: "propagateReachesReturn guardedRecursion (guardedSummaries False, [2])
             = Inr guardedAfterReturn"
    by (simp add: guardedRecursion_blocks)
  have n: "info guardedAfterReturn 0 = Inr (guardedAfterReturn ! 0)"
    "reachesReturn (guardedAfterReturn ! 0)"
    by (simp_all add: info_def guardedAfterReturn_def guardedSummaries_def)
  show ?thesis
    unfolding analyzeAndDiagnose_def isEntryReachableFromReturn_def i sum.case p n(1)
    by (simp add: n(2))
qed

lemma guardedRecursion_reports:
  "isArgumentInvariant invariants 0
     \<Longrightarrow> analyzeAndDiagnose exampleModule guardedRecursion invariants
           = Inr ([forwardingCallInst], True)"
proof -
  let ?waiting = "(guardedSummaries True)
                  [0 := (guardedSummaries True ! 0)\<lparr>numSuccsNotReachingReturn := 1\<rparr>]"
  assume "isArgumentInvariant invariants 0"
  with guardedRecursion_initBlockInfos [of invariants]
  have i: "initBlockInfos exampleModule guardedRecursion invariants
             (getBlocks guardedRecursion) ([], []) = Inr (guardedSummaries True, [2])"
    by simp
  have v: "visitPredecessors [0, 1] (guardedSummaries True, []) = Inr (?waiting, [])"
    by (simp add: visitPredecessor_def info_def guardedSummaries_def)
  have "propagateReachesReturn guardedRecursion (guardedSummaries True, [2])
          = propagateReachesReturn guardedRecursion (?waiting, [])"
    by (simp only: propagateReachesReturn.simps guardedRecursion_blocks sum.case
        SILBasicBlock.select_convs v)
  then have p: "propagateReachesReturn guardedRecursion (guardedSummaries True, [2])
                  = Inr ?waiting"
    by simp
  have n: "info ?waiting 0 = Inr (?waiting ! 0)" "\<not> reachesReturn (?waiting ! 0)"
    by (simp_all add: info_def guardedSummaries_def)
  have e: "isEntryReachableFromReturn exampleModule guardedRecursion invariants
             = Inr (False, ?waiting)"
    unfolding isEntryReachableFromReturn_def i sum.case p n(1)
    using n(2) by simp
  have d: "findRecursiveCallsAndDiagnose guardedRecursion ?waiting
             = Inr ([forwardingCallInst], True)"
    by (simp add: findRecursiveCallsAndDiagnose_def info_def guardedSummaries_def
        guardedRecursion_blocks visitSuccessor_def)
  show ?thesis
    unfolding analyzeAndDiagnose_def e sum.case prod.case if_False
    by (rule d)
qed

lemma guardedRecursion_endsRun:
  "\<not> endsRun exampleModule guardedRecursion noInvariants"
  "\<not> endsRun exampleModule guardedRecursion (withInvariantMemory noInvariants)"
  "endsRun exampleModule guardedRecursion (Invariants 2)"
proof -
  have "\<not> isArgumentInvariant noInvariants 0"
    "\<not> isArgumentInvariant (withInvariantMemory noInvariants) 0"
    "isArgumentInvariant (Invariants 2) 0"
    by (simp_all add: invariants_defs)
  then show "\<not> endsRun exampleModule guardedRecursion noInvariants"
    "\<not> endsRun exampleModule guardedRecursion (withInvariantMemory noInvariants)"
    "endsRun exampleModule guardedRecursion (Invariants 2)"
    by (simp_all add: endsRun_def guardedRecursion_returns guardedRecursion_reports)
qed

theorem run_attempts_bounded_witness:
  "collectInvariantsToTry exampleModule guardedRecursion
       = Inr ([noInvariants, Invariants 2], True)
     \<and> attempts (run exampleModule guardedRecursion)
         = [noInvariants, withInvariantMemory noInvariants, Invariants 2]
     \<and> length (attempts (run exampleModule guardedRecursion)) \<le> 8"
proof -
  have w: "\<not> wasDeserializedCanonical guardedRecursion"
    by (simp add: guardedRecursion_def)
  note bounded = run_attempts_bounded [of exampleModule guardedRecursion]
  from bounded have l: "length (attempts (run exampleModule guardedRecursion)) \<le> 8"
    by (rule conjunct1)
  from bounded w guardedRecursion_collect
  have "attempts (run exampleModule guardedRecursion)
          = upToFirst (endsRun exampleModule guardedRecursion)
              (candidateAttempts [noInvariants, Invariants 2])"
    by blast
  then have "attempts (run exampleModule guardedRecursion)
          = [noInvariants, withInvariantMemory noInvariants, Invariants 2]"
    by (simp add: candidateAttempts_def guardedRecursion_endsRun)
  with l guardedRecursion_collect show ?thesis by simp
qed


lemma collectFromInstructions_no_recursive_call:
  "\<forall>inst\<in>set insts. \<forall>applySite.
       asFullApplySite inst = Some applySite \<longrightarrow> \<not> isRecursiveCall module function applySite
     \<Longrightarrow> collectFromInstructions module function insts (invariantsToTry, found)
           = Inr (invariantsToTry, found)"
  by (induction insts) (auto split: option.splits)

text \<open>
  C8. When no instruction of the function is a recursive call, the run of the pass issues
  no warning, does not fail, and does not call \<open>analyzeAndDiagnose\<close> at all: no summary
  is built and neither propagation runs.
\<close>

theorem run_without_recursive_call:
  assumes "\<forall>inst\<in>set (functionInstructions function). \<forall>applySite.
             asFullApplySite inst = Some applySite
               \<longrightarrow> \<not> isRecursiveCall module function applySite"
  shows "run module function = \<lparr>attempts = [], diagnosed = [], aborted = None\<rparr>"
proof -
  have "collectFromInstructions module function (functionInstructions function)
          (setVectorInsert noInvariants [], False)
        = Inr (setVectorInsert noInvariants [], False)"
    using assms by (rule collectFromInstructions_no_recursive_call)
  then show ?thesis
    by (simp add: run_def collectInvariantsToTry_def Let_def)
qed

text \<open>
  A function (number 7) whose only block calls a program termination point (function 9)
  and returns.
\<close>

definition callsOther :: SILFunction where
  "callsOther =
     \<lparr>functionId = 7, numArguments = 0,
      getBlocks = [\<lparr>bodyInstructions = [assertCallInst 0], getTerminator = returnInst,
                    getSuccessorBlocks = [], getPredecessorBlocks = []\<rparr>],
      wasDeserializedCanonical = False\<rparr>"

theorem run_without_recursive_call_witness:
  "functionInstructions callsOther = [assertCallInst 0, asInstruction returnInst]
     \<and> run exampleModule callsOther = \<lparr>attempts = [], diagnosed = [], aborted = None\<rparr>"
proof -
  have i: "functionInstructions callsOther = [assertCallInst 0, asInstruction returnInst]"
    by (simp add: functionInstructions_def blockInstructions_def callsOther_def)
  have "\<forall>inst\<in>set (functionInstructions callsOther). \<forall>applySite.
             asFullApplySite inst = Some applySite
               \<longrightarrow> \<not> isRecursiveCall exampleModule callsOther applySite"
    unfolding i
    by (simp add: assertCallInst_def returnInst_def isRecursiveCall_def callsOther_def)
  from run_without_recursive_call [OF this] i show ?thesis by simp
qed

text \<open>
  The whole run on \<open>guardedRecursion\<close>: two attempts without a report, then the report of
  the recursive call under the invariants of the forwarded argument.
\<close>

lemma run_guardedRecursion:
  "run exampleModule guardedRecursion
     = \<lparr>attempts = [noInvariants, withInvariantMemory noInvariants, Invariants 2],
        diagnosed = [forwardingCallInst], aborted = None\<rparr>"
proof -
  have a: "\<not> isArgumentInvariant noInvariants 0"
    "\<not> isArgumentInvariant (withInvariantMemory noInvariants) 0"
    "isArgumentInvariant (Invariants 2) 0"
    by (simp_all add: invariants_defs)
  have w: "\<not> wasDeserializedCanonical guardedRecursion"
    by (simp add: guardedRecursion_def)
  show ?thesis
    unfolding run_def guardedRecursion_collect
    by (simp add: w attempt_def guardedRecursion_returns [OF a(1)]
        guardedRecursion_returns [OF a(2)] guardedRecursion_reports [OF a(3)])
qed

end
